theory Spec2Isabelle
  imports Main "HOL-Library.Sublist" "HOL-Library.AList"
begin

section \<open>Text primitives of the Python runtime\<close>

text \<open>
  A Python \<open>str\<close> is modelled as a \<open>string\<close>; a \<open>char\<close> stands for one code point
  below 256, so the embedding covers sources whose text lies in that range. The line
  feed and the double quote are written by their code.
\<close>

abbreviation LF :: char where "LF \<equiv> CHR 0x0A"
abbreviation CR :: char where "CR \<equiv> CHR 0x0D"
abbreviation DQUOTE :: char where "DQUOTE \<equiv> CHR 0x22"
abbreviation SQUOTE :: char where "SQUOTE \<equiv> CHR 0x27"
abbreviation BACKSLASH :: char where "BACKSLASH \<equiv> CHR 0x5C"

text \<open>
  \<open>isspace\<close> is the whitespace test shared by \<open>str.strip()\<close> and by \<open>\s\<close> of a
  \<open>str\<close> pattern: the code points 9 to 13, 28 to 32, 0x85 and 0xA0.
\<close>

definition isspace :: "char \<Rightarrow> bool" where
  "isspace c = (let n = (of_char c :: nat) in
      (9 \<le> n \<and> n \<le> 13) \<or> (28 \<le> n \<and> n \<le> 32) \<or> n = 0x85 \<or> n = 0xA0)"

text \<open>\<open>s.strip()\<close>: whitespace removed at both ends.\<close>

definition strip :: "string \<Rightarrow> string" where
  "strip s = rev (dropWhile isspace (rev (dropWhile isspace s)))"

text \<open>\<open>s.endswith(suf)\<close> and \<open>s.startswith(pre)\<close>.\<close>

definition endswith :: "string \<Rightarrow> string \<Rightarrow> bool" where
  "endswith s suf = (length suf \<le> length s \<and> drop (length s - length suf) s = suf)"

definition startswith :: "string \<Rightarrow> string \<Rightarrow> bool" where
  "startswith s pre = (take (length pre) s = pre)"

section \<open>The include pattern\<close>

text \<open>
  \<open>INCLUDE_RE.match(line)\<close> for the pattern
  \<^verbatim>\<open>^\s*#\s*include\s*([<"])([^>"]+)[>"]\<close>: the result is \<open>None\<close> when the line does
  not match and \<open>Some\<close> of group 2 (the target) when it does. Each starred class is
  followed by a character outside the class, and the target is a maximal run of
  characters other than \<open>>\<close> and the double quote that a closing character must follow,
  so the match is found by one scan from the left.
\<close>

definition closes :: "char \<Rightarrow> bool" where
  "closes c = (c = CHR ''>'' \<or> c = DQUOTE)"

definition INCLUDE_RE_match :: "string \<Rightarrow> string option" where
  "INCLUDE_RE_match line =
     (case dropWhile isspace line of
        [] \<Rightarrow> None
      | h # s2 \<Rightarrow>
          if h \<noteq> CHR ''#'' then None
          else let s3 = dropWhile isspace s2 in
            if take 7 s3 \<noteq> ''include'' then None
            else (case dropWhile isspace (drop 7 s3) of
                    [] \<Rightarrow> None
                  | q # s5 \<Rightarrow>
                      if q \<noteq> CHR ''<'' \<and> q \<noteq> DQUOTE then None
                      else let tgt = takeWhile (\<lambda>c. \<not> closes c) s5;
                               rest = dropWhile (\<lambda>c. \<not> closes c) s5
                           in if tgt = [] \<or> rest = [] then None else Some tgt))"

section \<open>The include block\<close>

record IncludeLine =
  idx :: nat
  "text" :: string
  target :: string

text \<open>
  \<open>find_include_block\<close>, lines 84 to 99. \<open>find_start\<close> is the \<open>for\<close> loop that looks
  for the first matching line (called with the index of the head of the list), and
  \<open>block_loop\<close> is the \<open>while\<close> loop over \<open>end\<close> and \<open>includes\<close>.
\<close>

fun find_start :: "nat \<Rightarrow> string list \<Rightarrow> nat option" where
  "find_start i [] = None"
| "find_start i (line # rest) =
     (if INCLUDE_RE_match line \<noteq> None then Some i else find_start (Suc i) rest)"

function block_loop :: "string list \<Rightarrow> nat \<Rightarrow> IncludeLine list \<Rightarrow> nat \<times> IncludeLine list" where
  "block_loop lines end includes =
     (if end < length lines \<and>
         (INCLUDE_RE_match (lines ! end) \<noteq> None \<or> strip (lines ! end) = [])
      then block_loop lines (Suc end)
             (case INCLUDE_RE_match (lines ! end) of
                Some m \<Rightarrow> includes @ [\<lparr>idx = end, text = lines ! end, target = m\<rparr>]
              | None \<Rightarrow> includes)
      else (end, includes))"
  by pat_completeness auto
termination
  by (relation "measure (\<lambda>(lines, end, includes). length lines - end)") auto

declare block_loop.simps [simp del]

definition find_include_block :: "string list \<Rightarrow> (nat \<times> nat \<times> IncludeLine list) option" where
  "find_include_block lines =
     (case find_start 0 lines of
        None \<Rightarrow> None
      | Some start \<Rightarrow>
          (case block_loop lines start [] of (end, includes) \<Rightarrow> Some (start, end, includes)))"

section \<open>Rebuilding the file\<close>

text \<open>
  \<open>rebuild_file\<close>, lines 143 to 152. \<open>rebuild_loop\<close> is the \<open>for\<close> loop with its two
  variables \<open>seen\<close> and \<open>new_block\<close>; \<open>lines[:start]\<close> and \<open>lines[end:]\<close> are
  \<open>take\<close> and \<open>drop\<close>, \<open>start\<close> and \<open>end\<close> being the non-negative indices that
  \<open>find_include_block\<close> returns.
\<close>

fun rebuild_loop :: "IncludeLine list \<Rightarrow> string set \<Rightarrow> string set \<Rightarrow> string list \<Rightarrow> string list" where
  "rebuild_loop [] keep_texts seen new_block = new_block"
| "rebuild_loop (inc # rest) keep_texts seen new_block =
     (if text inc \<in> keep_texts \<and> text inc \<notin> seen
      then rebuild_loop rest keep_texts (insert (text inc) seen)
             (new_block @ [if endswith (text inc) [LF] then text inc else text inc @ [LF]])
      else rebuild_loop rest keep_texts seen new_block)"

definition rebuild_file ::
  "string list \<Rightarrow> nat \<Rightarrow> nat \<Rightarrow> IncludeLine list \<Rightarrow> string set \<Rightarrow> string list" where
  "rebuild_file lines start end include_block keep_texts =
     (let new_block = rebuild_loop include_block keep_texts {} [];
          new_block' = (if new_block \<noteq> [] \<and> (end \<ge> length lines \<or> strip (lines ! end) \<noteq> [])
                        then new_block @ [[LF]] else new_block)
      in take start lines @ new_block' @ drop end lines)"

subsection \<open>What the new block is, said without the loop\<close>

text \<open>
  \<open>first_occurrences xs\<close> keeps each element of \<open>xs\<close> once, at the place where it
  first appears. \<open>terminated t\<close> is \<open>t\<close> with a line feed added unless it ends with one.
\<close>

function first_occurrences :: "'a list \<Rightarrow> 'a list" where
  "first_occurrences [] = []"
| "first_occurrences (x # xs) = x # first_occurrences (removeAll x xs)"
  by pat_completeness auto
termination
  by (relation "measure length") (auto simp: less_Suc_eq_le)

definition terminated :: "string \<Rightarrow> string" where
  "terminated t = (if endswith t [LF] then t else t @ [LF])"

definition kept_texts :: "IncludeLine list \<Rightarrow> string set \<Rightarrow> string list" where
  "kept_texts include_block keep_texts =
     first_occurrences (filter (\<lambda>t. t \<in> keep_texts) (map text include_block))"

section \<open>The world: files, temporary files, compiler runs, console\<close>

text \<open>
  \<open>subprocess.run(cmd, capture_output=not verbose, text=True)\<close>, line 106, either
  returns a completed process with its return code, or raises. It raises \<open>OSError\<close>
  when the executable cannot be started (it is missing, or not executable). It raises
  \<open>UnicodeDecodeError\<close> when the output is captured (the run is not verbose) and what
  the compiler wrote does not decode as text: this happens after the compiler has
  exited, whatever its exit status was. The code passes no \<open>check\<close> and no
  \<open>timeout\<close>, and catches nothing. A compiler that is killed by a signal has
  returned, with a negative code. \<open>Exited\<close> is the call that returns, \<open>Raised\<close> the
  call that raises, for either reason.
\<close>

datatype proc_result = Exited int | Raised

text \<open>
  The compiler, the flags, the include paths and the verbosity are fixed for a run.
  What the call of \<open>subprocess.run\<close> does is then a function of what stands at the path
  of the source file it is given: \<open>Some\<close> of the text of the file, or \<open>None\<close> when no
  file is there. The model passes this function where the source passes \<open>compiler\<close>,
  \<open>includes\<close> and \<open>cflags\<close>.
\<close>

type_synonym compiler = "string option \<Rightarrow> proc_result"

text \<open>
  The exceptions of a run. \<open>Run_raised\<close> is what \<open>subprocess.run\<close> raised (line 106),
  \<open>File_not_readable\<close> what \<open>read_text\<close> raised (lines 39 and 163), and
  \<open>No_closing_quotation\<close> and \<open>No_escaped_character\<close> are the two \<open>ValueError\<close> of
  \<open>shlex.split\<close> (lines 77 and 80). Nothing in the program catches any of them.
\<close>

datatype exn = Run_raised | File_not_readable | No_closing_quotation | No_escaped_character

type_synonym path = string

text \<open>
  The lines the program prints, one constructor for each \<open>print\<close> of the source. The
  text of the compiler's own output (verbose mode) is not modelled; \<open>Command\<close> is the
  echo of the command line, with the names of its two temporary files.
\<close>

datatype msg =
    Skip path
  | Error_baseline path
  | Error_trimmed path
  | Fix path int int
  | Noop path
  | Check path int int
  | Removable string
  | Command nat nat
  | No_files

text \<open>
  \<open>fs\<close> holds the text of the source files by path, \<open>tmp\<close> the temporary files that
  exist, by name, in the order of their creation, \<open>runs\<close> the source texts handed to
  the compiler so far, and \<open>out\<close> the lines printed so far. The files of \<open>fs\<close> are
  those the run can read and, in rewrite mode, write back: \<open>path.read_text\<close> raises
  on any other path, and \<open>path.write_text\<close> (line 198) is only reached on a path that
  was read. A file that can be read but not written, a temporary file that cannot be
  created or written, and a \<open>print\<close> that fails are outside the model.
\<close>

record world =
  fs :: "path \<rightharpoonup> string"
  tmp :: "(nat \<times> string) list"
  runs :: "string option list"
  out :: "msg list"

text \<open>
  \<open>tempfile.NamedTemporaryFile(delete=False)\<close> creates a file under a name that no
  existing file has: \<open>fresh_name\<close> picks one above all the names in use.
  \<open>os.unlink\<close> removes the file of that name.
\<close>

fun fresh_name :: "(nat \<times> 'a) list \<Rightarrow> nat" where
  "fresh_name [] = 0"
| "fresh_name ((n, c) # ts) = max (Suc n) (fresh_name ts)"

definition unlink :: "nat \<Rightarrow> (nat \<times> 'a) list \<Rightarrow> (nat \<times> 'a) list" where
  "unlink n ts = filter (\<lambda>(k, c). k \<noteq> n) ts"

text \<open>
  \<open>path.read_text()\<close> opens the file in text mode, which turns every \<open>\r\n\<close> and every
  other \<open>\r\<close> into \<open>\n\<close>, and raises when the file cannot be opened.
  \<open>str.splitlines(keepends=True)\<close> cuts after each line boundary; below code point 256
  these are \<open>\n\<close>, \<open>\r\<close>, \<open>\r\n\<close>, 0x0B, 0x0C, 0x1C, 0x1D, 0x1E and 0x85.
\<close>

fun universal_newlines :: "string \<Rightarrow> string" where
  "universal_newlines [] = []"
| "universal_newlines [c] = [if c = CR then LF else c]"
| "universal_newlines (c # d # s) =
     (if c = CR \<and> d = LF then LF # universal_newlines s
      else if c = CR then LF # universal_newlines (d # s)
      else c # universal_newlines (d # s))"

definition read_text :: "world \<Rightarrow> path \<Rightarrow> exn + string" where
  "read_text w p = (case fs w p of None \<Rightarrow> Inl File_not_readable
                    | Some raw \<Rightarrow> Inr (universal_newlines raw))"

definition is_linebreak :: "char \<Rightarrow> bool" where
  "is_linebreak c = (let n = (of_char c :: nat) in
      (10 \<le> n \<and> n \<le> 13) \<or> (28 \<le> n \<and> n \<le> 30) \<or> n = 0x85)"

fun splitlines_from :: "string \<Rightarrow> string \<Rightarrow> string list" where
  "splitlines_from cur [] = (if cur = [] then [] else [cur])"
| "splitlines_from cur [c] = [cur @ [c]]"
| "splitlines_from cur (c # d # s) =
     (if c = CR \<and> d = LF then (cur @ [c, d]) # splitlines_from [] s
      else if is_linebreak c then (cur @ [c]) # splitlines_from [] (d # s)
      else splitlines_from (cur @ [c]) (d # s))"

definition splitlines :: "string \<Rightarrow> string list" where
  "splitlines s = splitlines_from [] s"

section \<open>The compilation oracle\<close>

text \<open>
  \<open>compile_check\<close>, lines 102 to 114. When \<open>subprocess.run\<close> raises, be it because
  the compiler could not be started or because its captured output does not decode,
  the statements after it are not reached: the function leaves with the exception and
  the object file still there. \<open>write_temp\<close>, lines 117 to 121, and \<open>compile_lines\<close>, lines 155 to 159.
\<close>

definition compile_check :: "world \<Rightarrow> nat \<Rightarrow> compiler \<Rightarrow> bool \<Rightarrow> world \<times> (exn + bool)" where
  "compile_check w source cc verbose =
     (let tmp_obj = fresh_name (tmp w);
          w1 = w\<lparr>tmp := tmp w @ [(tmp_obj, [])]\<rparr>;
          src = map_of (tmp w1) source;
          w2 = w1\<lparr>runs := runs w1 @ [src]\<rparr>
      in case cc src of
           Raised \<Rightarrow> (w2, Inl Run_raised)
         | Exited returncode \<Rightarrow>
             (let w3 = (if verbose then w2\<lparr>out := out w2 @ [Command source tmp_obj]\<rparr> else w2);
                  w4 = w3\<lparr>tmp := unlink tmp_obj (tmp w3)\<rparr>
              in (w4, Inr (returncode = 0))))"

definition write_temp :: "world \<Rightarrow> string list \<Rightarrow> world \<times> nat" where
  "write_temp w lines =
     (let name = fresh_name (tmp w)
      in (w\<lparr>tmp := tmp w @ [(name, concat lines)]\<rparr>, name))"

definition compile_lines :: "world \<Rightarrow> string list \<Rightarrow> compiler \<Rightarrow> bool \<Rightarrow> world \<times> (exn + bool)" where
  "compile_lines w lines cc verbose =
     (case write_temp w lines of
        (w1, temp_path) \<Rightarrow>
          (case compile_check w1 temp_path cc verbose of
             (w2, Inl e) \<Rightarrow> (w2, Inl e)
           | (w2, Inr ok) \<Rightarrow> (w2\<lparr>tmp := unlink temp_path (tmp w2)\<rparr>, Inr ok)))"

section \<open>Which includes are needed\<close>

text \<open>
  \<open>determine_needed\<close>, lines 124 to 140. \<open>trimmed\<close> is the comprehension of line 134
  and \<open>needed_loop\<close> the \<open>for\<close> loop over the block, with its variable \<open>needed\<close>.
\<close>

definition trimmed :: "string list \<Rightarrow> nat \<Rightarrow> string list" where
  "trimmed lines i = map snd (filter (\<lambda>(j, ln). j \<noteq> i) (enumerate 0 lines))"

fun needed_loop ::
  "world \<Rightarrow> IncludeLine list \<Rightarrow> string list \<Rightarrow> compiler \<Rightarrow> bool \<Rightarrow> string set
     \<Rightarrow> world \<times> (exn + string set)" where
  "needed_loop w [] lines cc verbose needed = (w, Inr needed)"
| "needed_loop w (inc # rest) lines cc verbose needed =
     (case write_temp w (trimmed lines (idx inc)) of
        (w1, tmp_path) \<Rightarrow>
          (case compile_check w1 tmp_path cc verbose of
             (w2, Inl e) \<Rightarrow> (w2, Inl e)
           | (w2, Inr ok) \<Rightarrow>
               needed_loop (w2\<lparr>tmp := unlink tmp_path (tmp w2)\<rparr>) rest lines cc verbose
                 (if \<not> ok then insert (text inc) needed else needed)))"

definition determine_needed ::
  "world \<Rightarrow> path \<Rightarrow> IncludeLine list \<Rightarrow> string list \<Rightarrow> compiler \<Rightarrow> bool
     \<Rightarrow> world \<times> (exn + string set \<times> bool)" where
  "determine_needed w file_path include_block lines cc verbose =
     (case write_temp w lines of
        (w1, baseline_path) \<Rightarrow>
          (case compile_check w1 baseline_path cc verbose of
             (w2, Inl e) \<Rightarrow> (w2, Inl e)
           | (w2, Inr baseline_ok) \<Rightarrow>
               (let w3 = w2\<lparr>tmp := unlink baseline_path (tmp w2)\<rparr>
                in if \<not> baseline_ok then (w3, Inr ({}, False))
                   else (case needed_loop w3 include_block lines cc verbose {} of
                           (w4, Inl e) \<Rightarrow> (w4, Inl e)
                         | (w4, Inr needed) \<Rightarrow> (w4, Inr (needed, True))))))"

section \<open>Processing one file\<close>

text \<open>
  The repair loop, lines 187 to 194: \<open>Some keep_set\<close> when a candidate compiled (the
  \<open>break\<close>), \<open>None\<close> when the loop ran to its end (the \<open>else\<close> of the \<open>for\<close>).
\<close>

fun repair_loop ::
  "world \<Rightarrow> IncludeLine list \<Rightarrow> string list \<Rightarrow> nat \<Rightarrow> nat \<Rightarrow> IncludeLine list \<Rightarrow> string set
     \<Rightarrow> compiler \<Rightarrow> bool \<Rightarrow> world \<times> (exn + string set option)" where
  "repair_loop w [] lines start end include_block keep_set cc verbose = (w, Inr None)"
| "repair_loop w (inc # rest) lines start end include_block keep_set cc verbose =
     (let keep_set' = insert (text inc) keep_set;
          candidate_lines = rebuild_file lines start end include_block keep_set'
      in case compile_lines w candidate_lines cc verbose of
           (w1, Inl e) \<Rightarrow> (w1, Inl e)
         | (w1, Inr ok) \<Rightarrow>
             if ok then (w1, Inr (Some keep_set'))
             else repair_loop w1 rest lines start end include_block keep_set' cc verbose)"

text \<open>The two switches of the command line that \<open>process_file\<close> reads.\<close>

record args =
  "fix" :: bool
  verbose :: bool

text \<open>
  \<open>process_file\<close>, lines 162 to 208. \<open>fix_pass\<close> is its branch \<open>if args.fix\<close>, lines
  185 to 202, and \<open>check_report\<close> the other branch, lines 204 to 207.
  \<open>path.write_text\<close> stores the joined lines under the path.
\<close>

definition fix_pass ::
  "world \<Rightarrow> path \<Rightarrow> args \<Rightarrow> compiler \<Rightarrow> string list \<Rightarrow> nat \<Rightarrow> nat \<Rightarrow> IncludeLine list
     \<Rightarrow> IncludeLine list \<Rightarrow> string set \<Rightarrow> world \<times> (exn + bool)" where
  "fix_pass w p a cc lines start end include_block removed keep_set =
     (let candidate_lines = rebuild_file lines start end include_block keep_set
      in case compile_lines w candidate_lines cc (verbose a) of
           (w1, Inl e) \<Rightarrow> (w1, Inl e)
         | (w1, Inr ok) \<Rightarrow>
             (case (if \<not> ok
                    then repair_loop w1 removed lines start end include_block keep_set cc (verbose a)
                    else (w1, Inr (Some keep_set))) of
                (w2, Inl e) \<Rightarrow> (w2, Inl e)
              | (w2, Inr None) \<Rightarrow> (w2\<lparr>out := out w2 @ [Error_trimmed p]\<rparr>, Inr False)
              | (w2, Inr (Some keep_set')) \<Rightarrow>
                  (let new_lines = rebuild_file lines start end include_block keep_set'
                   in if new_lines \<noteq> lines
                      then (w2\<lparr>fs := (fs w2)(p \<mapsto> concat new_lines),
                                out := out w2 @
                                  [Fix p (int (card keep_set'))
                                     (int (length include_block) - int (card keep_set'))]\<rparr>,
                            Inr True)
                      else ((if verbose a then w2\<lparr>out := out w2 @ [Noop p]\<rparr> else w2),
                            Inr True))))"

definition check_report :: "world \<Rightarrow> path \<Rightarrow> IncludeLine list \<Rightarrow> IncludeLine list \<Rightarrow> world" where
  "check_report w p kept removed =
     w\<lparr>out := out w @ [Check p (int (length kept)) (int (length removed))] @
                map (\<lambda>inc. Removable (strip (text inc))) removed\<rparr>"

definition process_file :: "world \<Rightarrow> path \<Rightarrow> args \<Rightarrow> compiler \<Rightarrow> world \<times> (exn + bool)" where
  "process_file w p a cc =
     (case read_text w p of
        Inl e \<Rightarrow> (w, Inl e)
      | Inr content \<Rightarrow>
          (let lines = splitlines content in
           case find_include_block lines of
             None \<Rightarrow> ((if verbose a then w\<lparr>out := out w @ [Skip p]\<rparr> else w), Inr True)
           | Some (start, end, include_block) \<Rightarrow>
               (case determine_needed w p include_block lines cc (verbose a) of
                  (w1, Inl e) \<Rightarrow> (w1, Inl e)
                | (w1, Inr (needed, baseline_ok)) \<Rightarrow>
                    if \<not> baseline_ok
                    then (w1\<lparr>out := out w1 @ [Error_baseline p]\<rparr>, Inr False)
                    else
                      (let kept = filter (\<lambda>inc. text inc \<in> needed) include_block;
                           removed = filter (\<lambda>inc. text inc \<notin> needed) include_block;
                           keep_set = set (map text kept)
                       in if fix a
                          then fix_pass w1 p a cc lines start end include_block removed keep_set
                          else (check_report w1 p kept removed, Inr True)))))"

section \<open>The driver\<close>

text \<open>
  \<open>main\<close> from line 233 on, for the list \<open>files\<close> that \<open>collect_files\<close> returned;
  \<open>main_loop\<close> is the \<open>for\<close> loop of lines 239 and 240 with its variable \<open>ok\<close>. Reading
  the flags, lines 229 to 231, comes before: \<open>main_with_flags\<close> below is the run with
  that step. Parsing the arguments is not modelled.
\<close>

fun main_loop :: "world \<Rightarrow> args \<Rightarrow> compiler \<Rightarrow> path list \<Rightarrow> bool \<Rightarrow> world \<times> (exn + bool)" where
  "main_loop w a cc [] ok = (w, Inr ok)"
| "main_loop w a cc (p # rest) ok =
     (case process_file w p a cc of
        (w1, Inl e) \<Rightarrow> (w1, Inl e)
      | (w1, Inr r) \<Rightarrow> main_loop w1 a cc rest (r \<and> ok))"

definition main :: "world \<Rightarrow> args \<Rightarrow> compiler \<Rightarrow> path list \<Rightarrow> world \<times> (exn + int)" where
  "main w a cc files =
     (if files = [] then (w\<lparr>out := out w @ [No_files]\<rparr>, Inr 1)
      else (case main_loop w a cc files True of
              (w1, Inl e) \<Rightarrow> (w1, Inl e)
            | (w1, Inr ok) \<Rightarrow> (w1, Inr (if ok then 0 else 1))))"

section \<open>Flags from the Makefile\<close>

text \<open>
  \<open>str.splitlines()\<close> without \<open>keepends\<close>: the lines without their line boundary.
  \<open>line.split(sep, 1)\<close> for a one-character separator: the text before the first
  separator and the text after it (the second is empty when there is no separator).
\<close>

definition chomp :: "string \<Rightarrow> string" where
  "chomp l =
     (if endswith l [CR, LF] then take (length l - 2) l
      else if l \<noteq> [] \<and> is_linebreak (last l) then butlast l
      else l)"

definition splitlines_drop :: "string \<Rightarrow> string list" where
  "splitlines_drop s = map chomp (splitlines s)"

definition split_once :: "char \<Rightarrow> string \<Rightarrow> string \<times> string" where
  "split_once sep s = (takeWhile (\<lambda>c. c \<noteq> sep) s, drop 1 (dropWhile (\<lambda>c. c \<noteq> sep) s))"

text \<open>
  \<open>re.findall(r"\$\(([^)]+)\)", value)\<close>: the names between \<open>$(\<close> and the next \<open>)\<close>,
  not empty, found from left to right without overlap.
\<close>

function findall_vars :: "string \<Rightarrow> string list" where
  "findall_vars [] = []"
| "findall_vars (c # s) =
     (if c = CHR ''$'' \<and> take 1 s = ''(''
      then (let body = drop 1 s;
                name = takeWhile (\<lambda>c. c \<noteq> CHR '')'') body;
                rest = dropWhile (\<lambda>c. c \<noteq> CHR '')'') body
            in if name \<noteq> [] \<and> rest \<noteq> [] then name # findall_vars (drop 1 rest)
               else findall_vars s)
      else findall_vars s)"
  by pat_completeness auto
termination
proof (relation "measure length")
  fix c :: char and s body name rest :: string
  assume "body = drop 1 s" and "rest = dropWhile (\<lambda>c. c \<noteq> CHR '')'') body"
  then have "length rest \<le> length s"
    by (metis length_dropWhile_le length_drop diff_le_self le_trans)
  then show "(drop 1 rest, c # s) \<in> measure length"
    by simp
qed simp_all

text \<open>
  \<open>value.replace(old, new)\<close>: every occurrence of \<open>old\<close>, from left to right without
  overlap, becomes \<open>new\<close>; for an empty \<open>old\<close>, \<open>new\<close> goes before each character and
  at the end.
\<close>

function replace_from :: "string \<Rightarrow> string \<Rightarrow> string \<Rightarrow> string" where
  "replace_from old new [] = []"
| "replace_from old new (c # s) =
     (if old \<noteq> [] \<and> take (length old) (c # s) = old
      then new @ replace_from old new (drop (length old) (c # s))
      else c # replace_from old new s)"
  by pat_completeness auto
termination
  by (relation "measure (\<lambda>(old, new, s). length s)") (auto simp: neq_Nil_conv)

definition replace :: "string \<Rightarrow> string \<Rightarrow> string \<Rightarrow> string" where
  "replace s old new =
     (if old = [] then new @ concat (map (\<lambda>c. c # new) s) else replace_from old new s)"

text \<open>
  \<open>parse_make_vars\<close>, lines 36 to 55. The dictionary \<open>vars\<close> is an association list
  in the order of insertion: \<open>AList.update\<close> replaces the value of a key that is there
  and adds a new key at the end, and \<open>get\<close> is \<open>vars.get(var, "")\<close>. The file is
  \<open>None\<close> when it does not exist, else \<open>Some\<close> of its text.
\<close>

definition get :: "(string \<times> string) list \<Rightarrow> string \<Rightarrow> string" where
  "get vars k = (case map_of vars k of None \<Rightarrow> [] | Some v \<Rightarrow> v)"

definition parse_line :: "(string \<times> string) list \<Rightarrow> string \<Rightarrow> (string \<times> string) list" where
  "parse_line vars raw =
     (let line = strip raw in
      if line = [] \<or> startswith line ''#'' \<or> CHR ''='' \<notin> set line then vars
      else (case split_once CHR ''='' line of
              (name, val) \<Rightarrow>
                AList.update (strip name) (strip (fst (split_once CHR ''#'' val))) vars))"

definition expand :: "(string \<times> string) list \<Rightarrow> string \<Rightarrow> string" where
  "expand vars v =
     fold (\<lambda>var value. replace value (''$('' @ var @ '')'') (get vars var)) (findall_vars v) v"

definition parse_make_vars :: "string option \<Rightarrow> (string \<times> string) list" where
  "parse_make_vars makefile =
     (case makefile of
        None \<Rightarrow> []
      | Some raw \<Rightarrow>
          (let vars = fold (\<lambda>raw vars. parse_line vars raw)
                        (splitlines_drop (universal_newlines raw)) []
           in map (\<lambda>(k, v). (k, expand vars v)) vars))"

text \<open>
  \<open>shlex.split(s)\<close>: the lexer of the standard library in POSIX mode, with
  \<open>whitespace_split\<close> and without comments. \<open>read_tokens\<close> is its \<open>read_token\<close>, called
  until the text is used up; its arguments are the lexer's \<open>state\<close>, \<open>escapedstate\<close>,
  \<open>quoted\<close> and \<open>token\<close>, and the text that remains. Whitespace is space, tab, carriage
  return and line feed; the quotes are \<open>'\<close> and \<open>"\<close>; the escape is the backslash, which
  also escapes inside double quotes. A text that ends inside a quotation raises
  \<open>ValueError("No closing quotation")\<close>, and one that ends just after an escaping
  backslash raises \<open>ValueError("No escaped character")\<close>.
\<close>

definition shlex_space :: "char \<Rightarrow> bool" where
  "shlex_space c = (c = CHR '' '' \<or> c = CHR 0x09 \<or> c = CR \<or> c = LF)"

datatype lexer_state = In_space | In_word | In_quote char | In_escape

definition emit :: "string \<Rightarrow> exn + string list \<Rightarrow> exn + string list" where
  "emit token rest = (case rest of Inl e \<Rightarrow> Inl e | Inr tokens \<Rightarrow> Inr (token # tokens))"

fun read_tokens ::
  "lexer_state \<Rightarrow> lexer_state \<Rightarrow> bool \<Rightarrow> string \<Rightarrow> string \<Rightarrow> exn + string list" where
  "read_tokens In_space escapedstate quoted token [] =
     Inr (if \<not> quoted \<and> token = [] then [] else [token])"
| "read_tokens In_word escapedstate quoted token [] =
     Inr (if \<not> quoted \<and> token = [] then [] else [token])"
| "read_tokens (In_quote q) escapedstate quoted token [] = Inl No_closing_quotation"
| "read_tokens In_escape escapedstate quoted token [] = Inl No_escaped_character"
| "read_tokens In_space escapedstate quoted token (c # s) =
     (if shlex_space c
      then (if token \<noteq> [] \<or> quoted then emit token (read_tokens In_space In_space False [] s)
            else read_tokens In_space escapedstate quoted token s)
      else if c = BACKSLASH then read_tokens In_escape In_word quoted token s
      else if c = SQUOTE \<or> c = DQUOTE then read_tokens (In_quote c) escapedstate quoted token s
      else read_tokens In_word escapedstate quoted [c] s)"
| "read_tokens (In_quote q) escapedstate quoted token (c # s) =
     (if c = q then read_tokens In_word escapedstate True token s
      else if c = BACKSLASH \<and> q = DQUOTE then read_tokens In_escape (In_quote q) True token s
      else read_tokens (In_quote q) escapedstate True (token @ [c]) s)"
| "read_tokens In_escape escapedstate quoted token (c # s) =
     (let token' = (case escapedstate of
                      In_quote q \<Rightarrow> if c \<noteq> BACKSLASH \<and> c \<noteq> q then token @ [BACKSLASH] else token
                    | _ \<Rightarrow> token)
      in read_tokens escapedstate escapedstate quoted (token' @ [c]) s)"
| "read_tokens In_word escapedstate quoted token (c # s) =
     (if shlex_space c
      then (if token \<noteq> [] \<or> quoted then emit token (read_tokens In_space In_space False [] s)
            else read_tokens In_space escapedstate quoted token s)
      else if c = SQUOTE \<or> c = DQUOTE then read_tokens (In_quote c) escapedstate quoted token s
      else if c = BACKSLASH then read_tokens In_escape In_word quoted token s
      else read_tokens In_word escapedstate quoted (token @ [c]) s)"

definition shlex_split :: "string \<Rightarrow> exn + string list" where
  "shlex_split s = read_tokens In_space In_space False [] s"

text \<open>
  \<open>_normalize_includes\<close>, lines 58 to 72, and \<open>makefile_flags\<close>, lines 75 to 81. The
  file system is not part of the model: \<open>path_str p\<close> stands for \<open>str(Path(p))\<close>,
  \<open>resolve base_dir p\<close> for the text of \<open>(base_dir / p).resolve()\<close>, and \<open>base_dir\<close>
  for the text of \<open>makefile.parent.resolve()\<close>. A path is absolute when it starts with
  a slash. \<open>makefile_flags\<close> leaves with the exception of the first \<open>shlex.split\<close>
  that raises.
\<close>

fun normalize_includes ::
  "(string \<Rightarrow> string) \<Rightarrow> (string \<Rightarrow> string \<Rightarrow> string) \<Rightarrow> string list \<Rightarrow> string \<Rightarrow> string list" where
  "normalize_includes path_str resolve [] base_dir = []"
| "normalize_includes path_str resolve (tok # rest) base_dir =
     (if tok = [] then normalize_includes path_str resolve rest base_dir
      else (let path_part = (if startswith tok ''-I'' then drop 2 tok else tok);
                path = (if startswith path_part ''/'' then path_str path_part
                        else resolve base_dir path_part)
            in (''-I'' @ path) # normalize_includes path_str resolve rest base_dir))"

definition makefile_flags ::
  "(string \<Rightarrow> string) \<Rightarrow> (string \<Rightarrow> string \<Rightarrow> string) \<Rightarrow> string option \<Rightarrow> string
     \<Rightarrow> exn + (string list \<times> string list)" where
  "makefile_flags path_str resolve makefile base_dir =
     (let vars = parse_make_vars makefile in
      case shlex_split (get vars ''INCLUDES'') of
        Inl e \<Rightarrow> Inl e
      | Inr include_tokens \<Rightarrow>
          (let includes = normalize_includes path_str resolve include_tokens base_dir in
           case shlex_split (get vars ''CFLAGS'') of
             Inl e \<Rightarrow> Inl e
           | Inr cflags \<Rightarrow> Inr (includes, cflags)))"

section \<open>The whole run\<close>

text \<open>
  \<open>main\<close> from line 229 on: first the flags, lines 229 to 231, then the files, line 233
  on, which is the function \<open>main\<close> above. The Makefile is \<open>Absent\<close>, or it exists and
  \<open>read_text\<close> raises on it (\<open>Unreadable\<close>, line 39), or it exists with a text
  (\<open>Readable\<close>). \<open>include\<close> and \<open>cflag\<close> are \<open>args.include\<close> and \<open>args.cflag\<close>, \<open>None\<close>
  when the option was not given. \<open>run_of includes cflags\<close> is what \<open>subprocess.run\<close>
  does in this run for the command line built from the compiler and these flags. An
  exception of \<open>makefile_flags\<close> ends the run before any file is processed.
\<close>

datatype flags_file = Absent | Unreadable | Readable string

definition main_flags ::
  "(string \<Rightarrow> string) \<Rightarrow> (string \<Rightarrow> string \<Rightarrow> string) \<Rightarrow> flags_file \<Rightarrow> string
     \<Rightarrow> string list option \<Rightarrow> string list option \<Rightarrow> exn + (string list \<times> string list)" where
  "main_flags path_str resolve makefile base_dir include cflag =
     (case (case makefile of
              Absent \<Rightarrow> makefile_flags path_str resolve None base_dir
            | Unreadable \<Rightarrow> Inl File_not_readable
            | Readable raw \<Rightarrow> makefile_flags path_str resolve (Some raw) base_dir) of
        Inl e \<Rightarrow> Inl e
      | Inr (mf_includes, mf_cflags) \<Rightarrow>
          Inr (case include of None \<Rightarrow> mf_includes | Some given \<Rightarrow> given,
               case cflag of None \<Rightarrow> mf_cflags | Some given \<Rightarrow> given))"

definition main_with_flags ::
  "world \<Rightarrow> args \<Rightarrow> (string list \<Rightarrow> string list \<Rightarrow> compiler) \<Rightarrow> (string \<Rightarrow> string)
     \<Rightarrow> (string \<Rightarrow> string \<Rightarrow> string) \<Rightarrow> flags_file \<Rightarrow> string
     \<Rightarrow> string list option \<Rightarrow> string list option \<Rightarrow> path list \<Rightarrow> world \<times> (exn + int)" where
  "main_with_flags w a run_of path_str resolve makefile base_dir include cflag files =
     (case main_flags path_str resolve makefile base_dir include cflag of
        Inl e \<Rightarrow> (w, Inl e)
      | Inr (includes, cflags) \<Rightarrow> main w a (run_of includes cflags) files)"

section \<open>Notions used to state the properties\<close>

text \<open>
  \<open>accepts cc ls\<close>: the compiler run on the text of the lines \<open>ls\<close> returns with code 0.
  \<open>compiled w c v\<close>: the world after a compiler run on the text \<open>c\<close> that returned and
  whose two temporary files are gone; the run is logged and, in verbose mode, the
  command line is echoed.
\<close>

definition accepts :: "compiler \<Rightarrow> string list \<Rightarrow> bool" where
  "accepts cc ls = (cc (Some (concat ls)) = Exited 0)"

definition compiled :: "world \<Rightarrow> string \<Rightarrow> bool \<Rightarrow> world" where
  "compiled w c v =
     w\<lparr>runs := runs w @ [Some c],
       out := out w @ (if v then [Command (fresh_name (tmp w))
                                    (fresh_name (tmp w @ [(fresh_name (tmp w), c)]))] else [])\<rparr>"





text \<open>\<open>is_command m\<close>: the printed line is the echo of a command line.\<close>

fun is_command :: "msg \<Rightarrow> bool" where
  "is_command (Command source tmp_obj) = True"
| "is_command m = False"

section \<open>Sample inputs\<close>

text \<open>
  Three include lines and a line of code, a world with no files and a world with one
  source file, used where a property is evaluated on a concrete input.
\<close>

definition inc_a :: string where "inc_a = ''#include <a>'' @ [LF]"
definition inc_b :: string where "inc_b = ''#include <b>'' @ [LF]"
definition inc_c :: string where "inc_c = ''#include <c>'' @ [LF]"
definition code_x :: string where "code_x = ''int x;'' @ [LF]"

definition empty_world :: world where
  "empty_world = \<lparr>fs = Map.empty, tmp = [], runs = [], out = []\<rparr>"

definition world_with :: "path \<Rightarrow> string \<Rightarrow> world" where
  "world_with p c = \<lparr>fs = [p \<mapsto> c], tmp = [], runs = [], out = []\<rparr>"


text \<open>
  \<open>cc_b_or_c\<close>: a compiler for which the code needs what either of the headers \<open>b\<close>
  and \<open>c\<close> declares: it accepts a text exactly when one of these two include lines is
  among its lines.
\<close>

definition cc_b_or_c :: compiler where
  "cc_b_or_c src =
     (case src of
        None \<Rightarrow> Exited 1
      | Some s \<Rightarrow> if inc_b \<in> set (splitlines s) \<or> inc_c \<in> set (splitlines s)
                  then Exited 0 else Exited 1)"

text \<open>\<open>two_files\<close>: a world with the source files \<open>f.c\<close> and \<open>g.c\<close>.\<close>

definition two_files :: world where
  "two_files = \<lparr>fs = [''f.c'' \<mapsto> inc_a @ code_x, ''g.c'' \<mapsto> inc_b @ code_x],
                 tmp = [], runs = [], out = []\<rparr>"



section \<open>Temporary files and compiler runs\<close>

lemma fresh_name_gt: "(n, c) \<in> set ts \<Longrightarrow> n < fresh_name ts"
  by (induction ts) auto

lemma unlink_fresh: "unlink (fresh_name ts) (ts @ [(fresh_name ts, c)]) = ts"
proof -
  have "\<forall>x\<in>set ts. (case x of (k, c) \<Rightarrow> k \<noteq> fresh_name ts)"
    using fresh_name_gt by fastforce
  then have "filter (\<lambda>(k, c). k \<noteq> fresh_name ts) ts = ts"
    by (simp add: filter_id_conv)
  then show ?thesis by (simp add: unlink_def)
qed

lemma map_of_fresh_None: "map_of ts (fresh_name ts) = None"
proof -
  have "fresh_name ts \<notin> fst ` set ts"
    using fresh_name_gt by fastforce
  then show ?thesis by (simp add: map_of_eq_None_iff)
qed

lemma compile_lines_returns:
  assumes "cc (Some (concat ls)) = Exited rc"
  shows "compile_lines w ls cc v = (compiled w (concat ls) v, Inr (rc = 0))"
  using assms
  by (simp add: compile_lines_def write_temp_def compile_check_def Let_def map_add_def
      map_of_fresh_None unlink_fresh compiled_def
      unlink_fresh [of "tmp w @ [(fresh_name (tmp w), concat ls)]", simplified])

lemma compile_lines_raises:
  assumes "cc (Some (concat ls)) = Raised"
  shows "compile_lines w ls cc v =
    (w\<lparr>tmp := tmp w @ [(fresh_name (tmp w), concat ls),
         (fresh_name (tmp w @ [(fresh_name (tmp w), concat ls)]), [])],
       runs := runs w @ [Some (concat ls)]\<rparr>, Inl Run_raised)"
  using assms
  by (simp add: compile_lines_def write_temp_def compile_check_def Let_def map_add_def
      map_of_fresh_None)

lemma compile_lines_accepts:
  assumes "cc (Some (concat ls)) \<noteq> Raised"
  shows "compile_lines w ls cc v = (compiled w (concat ls) v, Inr (accepts cc ls))"
proof (cases "cc (Some (concat ls))")
  case (Exited rc)
  then show ?thesis by (simp add: compile_lines_returns accepts_def)
next
  case Raised
  with assms show ?thesis by simp
qed

lemma fs_compiled [simp]: "fs (compiled w c v) = fs w"
  by (simp add: compiled_def)

lemma tmp_compiled [simp]: "tmp (compiled w c v) = tmp w"
  by (simp add: compiled_def)

lemma runs_compiled [simp]: "runs (compiled w c v) = runs w @ [Some c]"
  by (simp add: compiled_def)

lemma out_compiled_quiet [simp]: "out (compiled w c False) = out w"
  by (simp add: compiled_def)


section \<open>Properties of the rebuilt file\<close>

lemma set_first_occurrences: "set (first_occurrences xs) = set xs"
  by (induction xs rule: first_occurrences.induct) auto

lemma distinct_first_occurrences: "distinct (first_occurrences xs)"
  by (induction xs rule: first_occurrences.induct) (auto simp: set_first_occurrences)

lemma subseq_first_occurrences: "subseq (first_occurrences xs) xs"
proof (induction xs rule: first_occurrences.induct)
  case 1
  then show ?case by simp
next
  case (2 x xs)
  have "subseq (removeAll x xs) xs"
    by (simp add: removeAll_filter_not_eq)
  with 2 have "subseq (first_occurrences (removeAll x xs)) xs"
    by (rule subseq_order.trans)
  then show ?case by simp
qed

lemma rebuild_loop_eq:
  "rebuild_loop incs keep seen nb =
     nb @ map terminated (first_occurrences (filter (\<lambda>t. t \<in> keep \<and> t \<notin> seen) (map text incs)))"
proof (induction incs arbitrary: seen nb)
  case Nil
  then show ?case by simp
next
  case (Cons inc rest)
  have rm: "removeAll (text inc) (filter (\<lambda>t. t \<in> keep \<and> t \<notin> seen) (map text rest)) =
        filter (\<lambda>t. t \<in> keep \<and> t \<notin> insert (text inc) seen) (map text rest)"
    by (induction rest) auto
  show ?case using Cons rm by (simp add: terminated_def)
qed

lemma rebuild_loop_kept: "rebuild_loop incs keep {} [] = map terminated (kept_texts incs keep)"
  by (simp add: rebuild_loop_eq kept_texts_def)

lemma endswith_terminated: "endswith (terminated t) [LF]"
  by (auto simp: terminated_def endswith_def)

lemma rebuild_file_eq:
  "rebuild_file lines start end include_block keep_texts =
     take start lines @ map terminated (kept_texts include_block keep_texts) @
     (if kept_texts include_block keep_texts \<noteq> [] \<and> (length lines \<le> end \<or> strip (lines ! end) \<noteq> [])
      then [[LF]] else []) @
     drop end lines"
  by (simp add: rebuild_file_def rebuild_loop_kept Let_def)

text \<open>
  C6. The rebuilt file is \<open>lines[:start]\<close>, the new block and \<open>lines[end:]\<close>. Before its
  optional separator the new block holds the kept texts: the texts of the block that
  are in \<open>keep_texts\<close>, each once, in the order of the block and at the place of its
  first appearance, each ending with a line feed.
\<close>

theorem rebuild_file_new_block:
  "distinct (kept_texts include_block keep_texts) \<and>
   set (kept_texts include_block keep_texts) = text ` set include_block \<inter> keep_texts \<and>
   subseq (kept_texts include_block keep_texts) (map text include_block) \<and>
   kept_texts include_block keep_texts =
     first_occurrences (filter (\<lambda>t. t \<in> keep_texts) (map text include_block)) \<and>
   list_all (\<lambda>l. endswith l [LF]) (map terminated (kept_texts include_block keep_texts)) \<and>
   (\<exists>sep. (sep = [] \<or> sep = [[LF]]) \<and>
      rebuild_file lines start end include_block keep_texts =
        take start lines @ map terminated (kept_texts include_block keep_texts) @ sep @ drop end lines)"
proof -
  let ?K = "kept_texts include_block keep_texts"
  have d: "distinct ?K"
    by (simp add: kept_texts_def distinct_first_occurrences)
  have s: "set ?K = text ` set include_block \<inter> keep_texts"
    by (auto simp: kept_texts_def set_first_occurrences)
  have "subseq ?K (filter (\<lambda>t. t \<in> keep_texts) (map text include_block))"
    unfolding kept_texts_def by (rule subseq_first_occurrences)
  then have o: "subseq ?K (map text include_block)"
    by (rule subseq_order.trans) simp
  have t: "list_all (\<lambda>l. endswith l [LF]) (map terminated ?K)"
    by (simp add: list_all_iff endswith_terminated)
  have r: "\<exists>sep. (sep = [] \<or> sep = [[LF]]) \<and>
      rebuild_file lines start end include_block keep_texts =
        take start lines @ map terminated ?K @ sep @ drop end lines"
    by (subst rebuild_file_eq) auto
  show ?thesis using d s o t r by (simp add: kept_texts_def)
qed

text \<open>
  C7, as the code has it. One separator line, a lone line feed, follows the new block
  exactly when the new block is not empty and either no line follows the original
  block (\<open>end\<close> is at or past the end of the file) or the line at \<open>end\<close> is not blank.
\<close>

theorem rebuild_file_separator:
  "rebuild_file lines start end include_block keep_texts =
     take start lines @ map terminated (kept_texts include_block keep_texts) @
     (if kept_texts include_block keep_texts \<noteq> [] \<and> (length lines \<le> end \<or> strip (lines ! end) \<noteq> [])
      then [[LF]] else []) @
     drop end lines"
  by (rule rebuild_file_eq)

text \<open>
  C7 as the specification words it asks for a non-blank line after the block. A file that
  is one include line has no such line, and the separator is added all the same.
\<close>

theorem rebuild_file_separator_at_eof:
  "find_include_block [''#include <a>'' @ [LF]] =
     Some (0, 1, [\<lparr>idx = 0, text = ''#include <a>'' @ [LF], target = ''a''\<rparr>]) \<and>
   rebuild_file [''#include <a>'' @ [LF]] 0 1
     [\<lparr>idx = 0, text = ''#include <a>'' @ [LF], target = ''a''\<rparr>] {''#include <a>'' @ [LF]}
     = [''#include <a>'' @ [LF], [LF]] \<and>
   rebuild_file [''#include <a>'' @ [LF]] 0 1
     [\<lparr>idx = 0, text = ''#include <a>'' @ [LF], target = ''a''\<rparr>] {''#include <a>'' @ [LF]}
     \<noteq> take 0 [''#include <a>'' @ [LF]] @
        map terminated (kept_texts [\<lparr>idx = 0, text = ''#include <a>'' @ [LF], target = ''a''\<rparr>]
                          {''#include <a>'' @ [LF]}) @
        (if kept_texts [\<lparr>idx = 0, text = ''#include <a>'' @ [LF], target = ''a''\<rparr>]
              {''#include <a>'' @ [LF]} \<noteq> [] \<and>
            1 < length [''#include <a>'' @ [LF]] \<and> strip ([''#include <a>'' @ [LF]] ! 1) \<noteq> []
         then [[LF]] else []) @
        drop 1 [''#include <a>'' @ [LF]]"
  by (simp add: find_include_block_def block_loop.simps INCLUDE_RE_match_def isspace_def
      closes_def strip_def rebuild_file_def endswith_def kept_texts_def terminated_def)

section \<open>Classification\<close>

lemma trimmed_eq: "trimmed lines i = take i lines @ drop (Suc i) lines"
proof -
  have gen: "map snd (filter (\<lambda>(j, ln). j \<noteq> k + i) (enumerate k ls)) = take i ls @ drop (Suc i) ls"
    for k and ls :: "string list" and i
  proof (induction ls arbitrary: k i)
    case Nil
    then show ?case by simp
  next
    case (Cons l ls)
    show ?case
    proof (cases i)
      case 0
      have "filter (\<lambda>(j, ln). j \<noteq> k) (enumerate (Suc k) ls) = enumerate (Suc k) ls"
        by (auto simp: filter_id_conv in_set_enumerate_eq)
      with 0 show ?thesis by simp
    next
      case (Suc i')
      with Cons [of "Suc k" i'] show ?thesis by simp
    qed
  qed
  from gen [of 0] show ?thesis by (simp add: trimmed_def)
qed

lemma needed_loop_Cons:
  "needed_loop w (inc # rest) lines cc v needed =
     (case compile_lines w (trimmed lines (idx inc)) cc v of
        (w2, Inl e) \<Rightarrow> (w2, Inl e)
      | (w2, Inr ok) \<Rightarrow>
          needed_loop w2 rest lines cc v (if \<not> ok then insert (text inc) needed else needed))"
  by (simp add: compile_lines_def split: prod.splits sum.splits)

lemma determine_needed_alt:
  "determine_needed w fp include_block lines cc v =
     (case compile_lines w lines cc v of
        (w2, Inl e) \<Rightarrow> (w2, Inl e)
      | (w2, Inr baseline_ok) \<Rightarrow>
          if \<not> baseline_ok then (w2, Inr ({}, False))
          else (case needed_loop w2 include_block lines cc v {} of
                  (w4, Inl e) \<Rightarrow> (w4, Inl e)
                | (w4, Inr needed) \<Rightarrow> (w4, Inr (needed, True))))"
  by (simp add: determine_needed_def compile_lines_def Let_def split: prod.splits sum.splits)

lemma needed_loop_eq:
  assumes "\<forall>inc\<in>set incs. cc (Some (concat (trimmed lines (idx inc)))) \<noteq> Raised"
  shows "needed_loop w incs lines cc v needed =
     (fold (\<lambda>inc w. compiled w (concat (trimmed lines (idx inc))) v) incs w,
      Inr (needed \<union> {text inc |inc. inc \<in> set incs \<and> \<not> accepts cc (trimmed lines (idx inc))}))"
  using assms
proof (induction incs arbitrary: w needed)
  case Nil
  then show ?case by simp
next
  case (Cons inc rest)
  have step: "compile_lines w (trimmed lines (idx inc)) cc v =
      (compiled w (concat (trimmed lines (idx inc))) v, Inr (accepts cc (trimmed lines (idx inc))))"
    using Cons.prems by (simp add: compile_lines_accepts)
  have rest: "\<forall>inc\<in>set rest. cc (Some (concat (trimmed lines (idx inc)))) \<noteq> Raised"
    using Cons.prems by simp
  show ?case
    unfolding needed_loop_Cons step
    using Cons.IH [OF rest] by auto
qed


lemma fs_fold_compiled: "fs (fold (\<lambda>x w. compiled w (f x) v) xs w) = fs w"
  by (induction xs arbitrary: w) auto

lemma tmp_fold_compiled: "tmp (fold (\<lambda>x w. compiled w (f x) v) xs w) = tmp w"
  by (induction xs arbitrary: w) auto

lemma out_fold_compiled_quiet: "out (fold (\<lambda>x w. compiled w (f x) False) xs w) = out w"
  by (induction xs arbitrary: w) auto

lemma determine_needed_eq:
  assumes "accepts cc lines"
      and "\<forall>inc\<in>set include_block. cc (Some (concat (trimmed lines (idx inc)))) \<noteq> Raised"
  shows "determine_needed w fp include_block lines cc v =
     (fold (\<lambda>inc w. compiled w (concat (trimmed lines (idx inc))) v) include_block
        (compiled w (concat lines) v),
      Inr ({text inc |inc. inc \<in> set include_block \<and> \<not> accepts cc (trimmed lines (idx inc))}, True))"
proof -
  have "cc (Some (concat lines)) = Exited 0"
    using assms(1) by (simp add: accepts_def)
  then have base: "compile_lines w lines cc v = (compiled w (concat lines) v, Inr True)"
    by (simp add: compile_lines_returns)
  show ?thesis
    unfolding determine_needed_alt base
    by (simp add: needed_loop_eq [OF assms(2)])
qed


lemmas text_defs = INCLUDE_RE_match_def isspace_def closes_def strip_def endswith_def
  is_linebreak_def splitlines_def

lemmas sample_defs = inc_a_def inc_b_def inc_c_def code_x_def empty_world_def world_with_def

lemmas run_defs = compile_lines_def compile_check_def write_temp_def unlink_def
  determine_needed_def trimmed_def Let_def



section \<open>A file whose baseline does not compile\<close>

lemma concat_splitlines_from: "concat (splitlines_from cur s) = cur @ s"
  by (induction cur s rule: splitlines_from.induct) auto

lemma concat_splitlines: "concat (splitlines s) = s"
  by (simp add: splitlines_def concat_splitlines_from)





section \<open>A compiler run that raises\<close>

text \<open>
  C2 at a compiler that cannot be started, where \<open>subprocess.run\<close> raises on every
  call. The two \<open>os.unlink\<close> calls that follow it are not reached, and the temporary
  source file and the temporary object file are left behind: by \<open>compile_lines\<close>, and
  so by a whole run.
\<close>

theorem compile_lines_leaves_temporary_files:
  "compile_lines empty_world [code_x] (\<lambda>src. Raised) False =
     (empty_world\<lparr>tmp := [(0, code_x), (1, [])], runs := [Some code_x]\<rparr>,
      Inl Run_raised) \<and>
   tmp (fst (main (world_with ''f.c'' (inc_a @ code_x)) \<lparr>fix = True, verbose = False\<rparr>
               (\<lambda>src. Raised) [''f.c''])) = [(0, inc_a @ code_x), (1, [])]"
  by (simp add: main_def process_file_def read_text_def find_include_block_def
      block_loop.simps text_defs sample_defs run_defs)

section \<open>The repair loop and the rewrite\<close>






lemma process_file_fix_eq:
  assumes "read_text w p = Inr content"
      and "find_include_block (splitlines content) = Some (s, e, block)"
      and "accepts cc (splitlines content)"
      and "\<forall>inc\<in>set block. cc (Some (concat (trimmed (splitlines content) (idx inc)))) \<noteq> Raised"
      and "fix a"
  shows "process_file w p a cc =
     fix_pass
       (fold (\<lambda>inc w. compiled w (concat (trimmed (splitlines content) (idx inc))) (verbose a)) block
          (compiled w content (verbose a)))
       p a cc (splitlines content) s e block
       (filter (\<lambda>inc. text inc \<notin> {text inc |inc. inc \<in> set block \<and>
                   \<not> accepts cc (trimmed (splitlines content) (idx inc))}) block)
       (set (map text (filter (\<lambda>inc. text inc \<in> {text inc |inc. inc \<in> set block \<and>
                   \<not> accepts cc (trimmed (splitlines content) (idx inc))}) block)))"
  using assms(1,2,5)
  by (simp add: process_file_def determine_needed_eq [OF assms(3,4)] Let_def concat_splitlines)




lemma cc_b_or_c_returns: "\<forall>src. cc_b_or_c src \<noteq> Raised"
  by (simp add: cc_b_or_c_def split: option.splits)


section \<open>The run over the file list\<close>















text \<open>
  A text without quote and without backslash always splits: \<open>shlex.split\<close> raises only
  on a quotation left open or a backslash at the end.
\<close>

lemma read_tokens_plain:
  "SQUOTE \<notin> set s \<Longrightarrow> DQUOTE \<notin> set s \<Longrightarrow> BACKSLASH \<notin> set s \<Longrightarrow>
   st = In_space \<or> st = In_word \<Longrightarrow> \<exists>tokens. read_tokens st es q tok s = Inr tokens"
proof (induction s arbitrary: st es q tok)
  case Nil
  then show ?case by auto
next
  case (Cons c s)
  have ih: "\<And>st es q tok. st = In_space \<or> st = In_word \<Longrightarrow>
              \<exists>tokens. read_tokens st es q tok s = Inr tokens"
    using Cons by simp
  have em: "\<And>t. \<exists>tokens. emit t (read_tokens In_space In_space False [] s) = Inr tokens"
  proof -
    fix t
    from ih [of In_space In_space False "[]"] obtain ts where
      "read_tokens In_space In_space False [] s = Inr ts" by auto
    then show "\<exists>tokens. emit t (read_tokens In_space In_space False [] s) = Inr tokens"
      by (simp add: emit_def)
  qed
  from Cons.prems have c: "c \<noteq> SQUOTE" "c \<noteq> DQUOTE" "c \<noteq> BACKSLASH"
    by auto
  from Cons.prems(4) show ?case
  proof
    assume "st = In_space"
    then show ?thesis
      using c em ih by simp
  next
    assume "st = In_word"
    then show ?thesis
      using c em ih by simp
  qed
qed

lemma shlex_split_plain:
  "SQUOTE \<notin> set s \<Longrightarrow> DQUOTE \<notin> set s \<Longrightarrow> BACKSLASH \<notin> set s \<Longrightarrow>
     \<exists>tokens. shlex_split s = Inr tokens"
  unfolding shlex_split_def by (rule read_tokens_plain) simp_all




text \<open>
  A flags file whose \<open>CFLAGS\<close> value opens a quotation and does not close it: the run
  ends with the exception of \<open>shlex.split\<close> before any file is compiled or any line is
  printed, also when the command line gives its own flags.
\<close>

lemma main_with_flags_unbalanced_quote:
  "snd (main_with_flags two_files \<lparr>fix = False, verbose = False\<rparr> (\<lambda>includes cflags. cc_b_or_c)
          id (\<lambda>d p. d @ ''/'' @ p) (Readable (''CFLAGS = -DNAME='' @ [DQUOTE] @ ''x'' @ [LF]))
          ''/proj'' None (Some [''-DX'']) [''f.c'', ''g.c'']) = Inl No_closing_quotation \<and>
   runs (fst (main_with_flags two_files \<lparr>fix = False, verbose = False\<rparr>
          (\<lambda>includes cflags. cc_b_or_c)
          id (\<lambda>d p. d @ ''/'' @ p) (Readable (''CFLAGS = -DNAME='' @ [DQUOTE] @ ''x'' @ [LF]))
          ''/proj'' None (Some [''-DX'']) [''f.c'', ''g.c''])) = [] \<and>
   out (fst (main_with_flags two_files \<lparr>fix = False, verbose = False\<rparr>
          (\<lambda>includes cflags. cc_b_or_c)
          id (\<lambda>d p. d @ ''/'' @ p) (Readable (''CFLAGS = -DNAME='' @ [DQUOTE] @ ''x'' @ [LF]))
          ''/proj'' None (Some [''-DX'']) [''f.c'', ''g.c''])) = []"
  by code_simp

section \<open>The shape of the include block\<close>

lemma block_loop_result:
  "block_loop lines e incs = (e', incs') \<Longrightarrow>
     e \<le> e' \<and> (e \<le> length lines \<longrightarrow> e' \<le> length lines) \<and>
     incs' = incs @ map (\<lambda>i. \<lparr>idx = i, text = lines ! i, target = the (INCLUDE_RE_match (lines ! i))\<rparr>)
                      (filter (\<lambda>i. INCLUDE_RE_match (lines ! i) \<noteq> None) [e..<e']) \<and>
     (\<forall>i. e \<le> i \<and> i < e' \<longrightarrow> INCLUDE_RE_match (lines ! i) \<noteq> None \<or> strip (lines ! i) = []) \<and>
     (e' < length lines \<longrightarrow> INCLUDE_RE_match (lines ! e') = None \<and> strip (lines ! e') \<noteq> [])"
proof (induction lines e incs arbitrary: e' incs' rule: block_loop.induct)
  case (1 lines e incs)
  show ?case
  proof (cases "e < length lines \<and> (INCLUDE_RE_match (lines ! e) \<noteq> None \<or> strip (lines ! e) = [])")
    case False
    have "block_loop lines e incs = (e, incs)"
      by (subst block_loop.simps) (simp only: False if_False simp_thms)
    with "1.prems" have "e' = e" "incs' = incs"
      by simp_all
    with False show ?thesis by auto
  next
    case True
    let ?incs1 = "case INCLUDE_RE_match (lines ! e) of
                Some m \<Rightarrow> incs @ [\<lparr>idx = e, text = lines ! e, target = m\<rparr>]
              | None \<Rightarrow> incs"
    have "block_loop lines e incs = block_loop lines (Suc e) ?incs1"
      by (subst block_loop.simps) (simp only: True if_True simp_thms)
    with "1.prems" have rec: "block_loop lines (Suc e) ?incs1 = (e', incs')"
      by simp
    note IH = "1.IH" [OF True rec]
    have le: "Suc e \<le> e'" using IH by simp
    then have upt: "[e..<e'] = e # [Suc e..<e']"
      by (simp add: upt_conv_Cons)
    have range: "\<forall>i. e \<le> i \<and> i < e' \<longrightarrow> INCLUDE_RE_match (lines ! i) \<noteq> None \<or> strip (lines ! i) = []"
    proof (intro allI impI)
      fix i assume "e \<le> i \<and> i < e'"
      then have "i = e \<or> (Suc e \<le> i \<and> i < e')" by auto
      then show "INCLUDE_RE_match (lines ! i) \<noteq> None \<or> strip (lines ! i) = []"
        using True IH by blast
    qed
    have incs: "incs' = incs @ map (\<lambda>i. \<lparr>idx = i, text = lines ! i, target = the (INCLUDE_RE_match (lines ! i))\<rparr>)
                      (filter (\<lambda>i. INCLUDE_RE_match (lines ! i) \<noteq> None) [e..<e'])"
      using IH by (cases "INCLUDE_RE_match (lines ! e)") (simp_all add: upt)
    show ?thesis
      using IH le True range incs by auto
  qed
qed

lemma find_start_bounds:
  "find_start i ls = Some k \<Longrightarrow> i \<le> k \<and> k < i + length ls \<and>
     INCLUDE_RE_match (ls ! (k - i)) \<noteq> None \<and> (\<forall>m < k - i. INCLUDE_RE_match (ls ! m) = None)"
proof (induction ls arbitrary: i)
  case Nil
  then show ?case by simp
next
  case (Cons l ls)
  show ?case
  proof (cases "INCLUDE_RE_match l \<noteq> None")
    case True
    with Cons.prems show ?thesis by auto
  next
    case False
    with Cons.prems have rec: "find_start (Suc i) ls = Some k" by simp
    from Cons.IH [OF rec] have IH: "Suc i \<le> k" "k < Suc i + length ls"
      "INCLUDE_RE_match (ls ! (k - Suc i)) \<noteq> None" "\<forall>m < k - Suc i. INCLUDE_RE_match (ls ! m) = None"
      by auto
    have "k - i = Suc (k - Suc i)" using IH(1) by simp
    then show ?thesis
      using IH False by (auto simp: less_Suc_eq_0_disj)
  qed
qed

lemma find_include_block_Some:
  assumes "find_include_block lines = Some (s, e, block)"
  shows "s < length lines \<and> s < e \<and> e \<le> length lines \<and>
     INCLUDE_RE_match (lines ! s) \<noteq> None \<and> (\<forall>m < s. INCLUDE_RE_match (lines ! m) = None) \<and>
     block = map (\<lambda>i. \<lparr>idx = i, text = lines ! i, target = the (INCLUDE_RE_match (lines ! i))\<rparr>)
                      (filter (\<lambda>i. INCLUDE_RE_match (lines ! i) \<noteq> None) [s..<e]) \<and>
     (\<forall>i. s \<le> i \<and> i < e \<longrightarrow> INCLUDE_RE_match (lines ! i) \<noteq> None \<or> strip (lines ! i) = []) \<and>
     (e < length lines \<longrightarrow> INCLUDE_RE_match (lines ! e) = None \<and> strip (lines ! e) \<noteq> [])"
proof -
  from assms obtain st where st: "find_start 0 lines = Some st"
    by (auto simp: find_include_block_def split: option.splits)
  with assms have loop: "block_loop lines st [] = (e, block)" and s: "s = st"
    by (auto simp: find_include_block_def split: prod.splits)
  from find_start_bounds [OF st] have fs: "s < length lines" "INCLUDE_RE_match (lines ! s) \<noteq> None"
    "\<forall>m < s. INCLUDE_RE_match (lines ! m) = None"
    using s by auto
  note bl = block_loop_result [OF loop [folded s]]
  have "s < e"
  proof (rule ccontr)
    assume "\<not> s < e"
    with bl have "e = s" by simp
    with bl fs show False by auto
  qed
  with bl fs show ?thesis by auto
qed

lemma set_without_duplicate:
  assumes "k < length ls" "k' < length ls" "k \<noteq> k'" "ls ! k = ls ! k'"
  shows "set (take k ls @ drop (Suc k) ls) = set ls"
proof
  show "set (take k ls @ drop (Suc k) ls) \<subseteq> set ls"
    by (auto dest: in_set_takeD in_set_dropD)
  have other: "m < length ls \<Longrightarrow> m \<noteq> k \<Longrightarrow> ls ! m \<in> set (take k ls @ drop (Suc k) ls)" for m
  proof -
    assume m: "m < length ls" "m \<noteq> k"
    show ?thesis
    proof (cases "m < k")
      case True
      then have "ls ! m = take k ls ! m" by simp
      moreover have "m < length (take k ls)" using True assms(1) by simp
      ultimately show ?thesis by (metis UnI1 nth_mem set_append)
    next
      case False
      with m have gt: "k < m" by simp
      then have "ls ! m = drop (Suc k) ls ! (m - Suc k)" using m by simp
      moreover have "m - Suc k < length (drop (Suc k) ls)" using gt m by simp
      ultimately show ?thesis by (metis UnI2 nth_mem set_append)
    qed
  qed
  show "set ls \<subseteq> set (take k ls @ drop (Suc k) ls)"
  proof
    fix x assume "x \<in> set ls"
    then obtain m where m: "m < length ls" "x = ls ! m"
      by (auto simp: in_set_conv_nth)
    show "x \<in> set (take k ls @ drop (Suc k) ls)"
    proof (cases "m = k")
      case False
      with m other show ?thesis by simp
    next
      case True
      with m assms have "x = ls ! k'" by simp
      with other [of k'] assms show ?thesis by simp
    qed
  qed
qed

section \<open>An include text that stands twice\<close>

text \<open>
  C10. The block holds the same text at two places, the baseline compiles, every
  compiler run returns, and the compiler gives a candidate that has the same set of
  lines as the file the verdict it gives the file (as a compiler does whose verdict
  depends only on the set of lines). Then \<open>determine_needed\<close> returns a needed set
  that does not hold that text.
\<close>

theorem duplicate_include_never_needed:
  assumes same_set: "\<forall>k<length lines. set (trimmed lines k) = set lines \<longrightarrow>
                       cc (Some (concat (trimmed lines k))) = cc (Some (concat lines))"
      and nlf: "\<forall>src. cc src \<noteq> Raised"
      and blk: "find_include_block lines = Some (start, end, include_block)"
      and ij: "i < length include_block" "j < length include_block" "i \<noteq> j"
      and dup: "text (include_block ! i) = text (include_block ! j)"
      and base: "accepts cc lines"
  shows "\<exists>w' needed. determine_needed w fp include_block lines cc v = (w', Inr (needed, True)) \<and>
           text (include_block ! i) \<notin> needed"
proof -
  let ?t = "text (include_block ! i)"
  let ?idxs = "filter (\<lambda>i. INCLUDE_RE_match (lines ! i) \<noteq> None) [start..<end]"
  from find_include_block_Some [OF blk]
  have e: "end \<le> length lines"
    and block: "include_block =
       map (\<lambda>i. \<lparr>idx = i, text = lines ! i, target = the (INCLUDE_RE_match (lines ! i))\<rparr>) ?idxs"
    by auto
  have idxs: "map idx include_block = ?idxs"
    by (subst block) (simp add: comp_def)
  have dist: "distinct (map idx include_block)"
    unfolding idxs by simp
  have wf: "idx inc < length lines \<and> text inc = lines ! idx inc" if "inc \<in> set include_block" for inc
    using that e by (subst (asm) block) auto
  have ne: "idx (include_block ! i) \<noteq> idx (include_block ! j)"
    using dist ij by (metis nth_eq_iff_index_eq length_map nth_map)
  have accepted: "accepts cc (trimmed lines (idx inc))"
    if inc: "inc \<in> set include_block" and t: "text inc = ?t" for inc
  proof -
    obtain other where o: "other \<in> set include_block" "text other = ?t" "idx other \<noteq> idx inc"
    proof (cases "idx inc = idx (include_block ! i)")
      case True
      with ne dup ij that show ?thesis
        by (intro that [of "include_block ! j"]) auto
    next
      case False
      with ij that show ?thesis
        by (intro that [of "include_block ! i"]) auto
    qed
    have "set (take (idx inc) lines @ drop (Suc (idx inc)) lines) = set lines"
      using wf [OF inc] wf [OF o(1)] o t
      by (intro set_without_duplicate [of _ _ "idx other"]) auto
    then have "set (trimmed lines (idx inc)) = set lines"
      by (simp add: trimmed_eq)
    with same_set wf [OF inc] have "cc (Some (concat (trimmed lines (idx inc)))) = cc (Some (concat lines))"
      by blast
    with base show ?thesis by (simp add: accepts_def)
  qed
  have cand: "\<forall>inc\<in>set include_block. cc (Some (concat (trimmed lines (idx inc)))) \<noteq> Raised"
    using nlf by simp
  have "?t \<notin> {text inc |inc. inc \<in> set include_block \<and> \<not> accepts cc (trimmed lines (idx inc))}"
    using accepted by auto
  then show ?thesis
    unfolding determine_needed_eq [OF base cand] by blast
qed

theorem duplicate_include_never_needed_witness:
  "find_include_block [inc_b, inc_b, code_x] =
     Some (0, 2, [\<lparr>idx = 0, text = inc_b, target = ''b''\<rparr>, \<lparr>idx = 1, text = inc_b, target = ''b''\<rparr>]) \<and>
   accepts cc_b_or_c [inc_b, inc_b, code_x] \<and>
   \<not> accepts cc_b_or_c [code_x] \<and>
   (\<exists>w' needed. determine_needed empty_world ''f.c''
        [\<lparr>idx = 0, text = inc_b, target = ''b''\<rparr>, \<lparr>idx = 1, text = inc_b, target = ''b''\<rparr>]
        [inc_b, inc_b, code_x] cc_b_or_c False = (w', Inr (needed, True)) \<and>
      inc_b \<notin> needed)"
proof -
  let ?lines = "[inc_b, inc_b, code_x]"
  let ?block = "[\<lparr>idx = 0, text = inc_b, target = ''b''\<rparr>, \<lparr>idx = 1, text = inc_b, target = ''b''\<rparr>]"
  have tr: "trimmed ?lines 0 = [inc_b, code_x]" "trimmed ?lines 1 = [inc_b, code_x]"
    "trimmed ?lines 2 = [inc_b, inc_b]"
    by (simp_all add: trimmed_def)
  have v: "cc_b_or_c (Some (concat [inc_b, code_x])) = cc_b_or_c (Some (concat ?lines))"
    by code_simp
  have ne: "set [inc_b, inc_b] \<noteq> set ?lines"
    by code_simp
  have h1: "\<forall>k<length ?lines. set (trimmed ?lines k) = set ?lines \<longrightarrow>
                       cc_b_or_c (Some (concat (trimmed ?lines k))) = cc_b_or_c (Some (concat ?lines))"
  proof (intro allI impI)
    fix k
    assume "k < length ?lines" and s: "set (trimmed ?lines k) = set ?lines"
    then have "k = 0 \<or> k = 1 \<or> k = 2"
      by auto
    then show "cc_b_or_c (Some (concat (trimmed ?lines k))) = cc_b_or_c (Some (concat ?lines))"
      using tr v ne s by (elim disjE) simp_all
  qed
  have h2: "\<forall>src. cc_b_or_c src \<noteq> Raised"
    by (rule cc_b_or_c_returns)
  have h3: "find_include_block ?lines = Some (0, 2, ?block)"
    by code_simp
  have h4: "accepts cc_b_or_c ?lines"
    by code_simp
  have h5: "\<not> accepts cc_b_or_c [code_x]"
    by code_simp
  from duplicate_include_never_needed [OF h1 h2 h3 _ _ _ _ h4, of 0 1 empty_world "''f.c''" False]
  have "\<exists>w' needed. determine_needed empty_world ''f.c'' ?block ?lines cc_b_or_c False =
      (w', Inr (needed, True)) \<and> inc_b \<notin> needed"
    by simp
  with h3 h4 h5 show ?thesis by blast
qed

section \<open>The flags of the sample Makefile\<close>

text \<open>
  C9. The flags file has the two lines \<open>INCLUDES = -Iinc $(EXTRA)\<close> and
  \<open>EXTRA = -Ivendor\<close>, and \<open>inc\<close> and \<open>vendor\<close> under the directory \<open>D\<close> of the file
  resolve to themselves. Then \<open>makefile_flags\<close> returns the two include flags, for
  \<open>D/inc\<close> and \<open>D/vendor\<close>, and no other flag.
\<close>

theorem makefile_flags_scenario:
  assumes "resolve D ''inc'' = D @ ''/inc''" and "resolve D ''vendor'' = D @ ''/vendor''"
  shows "makefile_flags path_str resolve
           (Some (''INCLUDES = -Iinc $(EXTRA)'' @ [LF] @ ''EXTRA = -Ivendor'' @ [LF])) D =
         Inr ([''-I'' @ D @ ''/inc'', ''-I'' @ D @ ''/vendor''], [])"
proof -
  have vars: "parse_make_vars
        (Some (''INCLUDES = -Iinc $(EXTRA)'' @ [LF] @ ''EXTRA = -Ivendor'' @ [LF])) =
      [(''INCLUDES'', ''-Iinc -Ivendor''), (''EXTRA'', ''-Ivendor'')]"
    by code_simp
  have inc: "shlex_split
        (get [(''INCLUDES'', ''-Iinc -Ivendor''), (''EXTRA'', ''-Ivendor'')] ''INCLUDES'') =
      Inr [''-Iinc'', ''-Ivendor'']"
    by code_simp
  have cfl: "shlex_split
        (get [(''INCLUDES'', ''-Iinc -Ivendor''), (''EXTRA'', ''-Ivendor'')] ''CFLAGS'') = Inr []"
    by code_simp
  show ?thesis
    unfolding makefile_flags_def vars Let_def inc cfl
    using assms by (simp add: startswith_def)
qed

theorem makefile_flags_scenario_witness:
  "(\<lambda>d p. d @ ''/'' @ p) ''/proj'' ''inc'' = ''/proj'' @ ''/inc'' \<and>
   (\<lambda>d p. d @ ''/'' @ p) ''/proj'' ''vendor'' = ''/proj'' @ ''/vendor'' \<and>
   makefile_flags id (\<lambda>d p. d @ ''/'' @ p)
     (Some (''INCLUDES = -Iinc $(EXTRA)'' @ [LF] @ ''EXTRA = -Ivendor'' @ [LF])) ''/proj'' =
     Inr ([''-I/proj/inc'', ''-I/proj/vendor''], [])"
  using makefile_flags_scenario [of "\<lambda>d p. d @ ''/'' @ p" "''/proj''" id]
  by simp

section \<open>Running twice\<close>

lemma while_append:
  "dropWhile P xs \<noteq> [] \<Longrightarrow>
     dropWhile P (xs @ ys) = dropWhile P xs @ ys \<and> takeWhile P (xs @ ys) = takeWhile P xs"
  by (induction xs) auto

lemma INCLUDE_RE_match_Some:
  "INCLUDE_RE_match t = Some m \<longleftrightarrow>
     (\<exists>s2 q s5. dropWhile isspace t = CHR ''#'' # s2 \<and>
        take 7 (dropWhile isspace s2) = ''include'' \<and>
        dropWhile isspace (drop 7 (dropWhile isspace s2)) = q # s5 \<and>
        (q = CHR ''<'' \<or> q = DQUOTE) \<and>
        takeWhile (\<lambda>c. \<not> closes c) s5 = m \<and> m \<noteq> [] \<and>
        dropWhile (\<lambda>c. \<not> closes c) s5 \<noteq> [])"
proof (cases "dropWhile isspace t")
  case Nil
  show ?thesis unfolding INCLUDE_RE_match_def Nil by simp
next
  case (Cons h s2)
  note c1 = Cons
  define s3 where "s3 = dropWhile isspace s2"
  define inc where "inc \<longleftrightarrow> take 7 s3 = ''include''"
  show ?thesis
  proof (cases "h = CHR ''#'' \<and> inc")
    case False
    then show ?thesis
      unfolding INCLUDE_RE_match_def c1 inc_def s3_def Let_def by auto
  next
    case True
    show ?thesis
    proof (cases "dropWhile isspace (drop 7 s3)")
      case Nil
      note n = Nil [unfolded s3_def]
      show ?thesis
        using True by (simp add: INCLUDE_RE_match_def c1 inc_def s3_def Let_def n)
    next
      case (Cons q s5)
      note c = Cons [unfolded s3_def]
      define tgt where "tgt = takeWhile (\<lambda>c. \<not> closes c) s5"
      define rest where "rest = dropWhile (\<lambda>c. \<not> closes c) s5"
      have "INCLUDE_RE_match t =
          (if q \<noteq> CHR ''<'' \<and> q \<noteq> DQUOTE then None
           else if tgt = [] \<or> rest = [] then None else Some tgt)"
        using True by (simp add: INCLUDE_RE_match_def c1 inc_def s3_def Let_def tgt_def rest_def c)
      then show ?thesis
        using True by (auto simp: c1 inc_def s3_def tgt_def rest_def c)
    qed
  qed
qed

lemma INCLUDE_RE_match_append:
  assumes "INCLUDE_RE_match t = Some m"
  shows "INCLUDE_RE_match (t @ u) = Some m"
proof -
  let ?P = "\<lambda>c. \<not> closes c"
  from assms obtain s2 q s5 where d1: "dropWhile isspace t = CHR ''#'' # s2"
    and t7: "take 7 (dropWhile isspace s2) = ''include''"
    and d4: "dropWhile isspace (drop 7 (dropWhile isspace s2)) = q # s5"
    and q: "q = CHR ''<'' \<or> q = DQUOTE"
    and tgt: "takeWhile ?P s5 = m" "m \<noteq> []" "dropWhile ?P s5 \<noteq> []"
    unfolding INCLUDE_RE_match_Some by blast
  let ?s3 = "dropWhile isspace s2"
  from t7 have "length (take 7 ?s3) = 7"
    by simp
  then have len: "7 \<le> length ?s3"
    by simp
  then have ne3: "?s3 \<noteq> []"
    by (metis list.size(3) not_numeral_le_zero)
  have a1: "dropWhile isspace (t @ u) = CHR ''#'' # (s2 @ u)"
    using while_append [of isspace t u] d1 by simp
  have a3: "dropWhile isspace (s2 @ u) = ?s3 @ u"
    using while_append [of isspace s2 u] ne3 by simp
  have a7: "take 7 (?s3 @ u) = ''include''" "drop 7 (?s3 @ u) = drop 7 ?s3 @ u"
    using len t7 by simp_all
  have a4: "dropWhile isspace (drop 7 ?s3 @ u) = q # (s5 @ u)"
    using while_append [of isspace "drop 7 ?s3" u] d4 by simp
  have a5: "takeWhile ?P (s5 @ u) = m" "dropWhile ?P (s5 @ u) \<noteq> []"
    using while_append [of ?P s5 u] tgt by simp_all
  show ?thesis
    unfolding INCLUDE_RE_match_Some
    using a1 a3 a7 a4 a5 q tgt(2) by (intro exI [of _ "s2 @ u"] exI [of _ q] exI [of _ "s5 @ u"]) simp
qed

lemma INCLUDE_RE_match_terminated:
  "INCLUDE_RE_match t \<noteq> None \<Longrightarrow> INCLUDE_RE_match (terminated t) \<noteq> None"
  by (auto simp: terminated_def INCLUDE_RE_match_append)

lemma blank_line: "INCLUDE_RE_match [LF] = None" "strip [LF] = []"
  by (simp_all add: INCLUDE_RE_match_def isspace_def strip_def)

lemma find_start_first:
  "k < length ls \<Longrightarrow> INCLUDE_RE_match (ls ! k) \<noteq> None \<Longrightarrow>
   \<forall>m<k. INCLUDE_RE_match (ls ! m) = None \<Longrightarrow> find_start i ls = Some (i + k)"
proof (induction ls arbitrary: i k)
  case Nil
  then show ?case by simp
next
  case (Cons l ls)
  show ?case
  proof (cases k)
    case 0
    with Cons.prems show ?thesis by simp
  next
    case (Suc k')
    with Cons.prems have "INCLUDE_RE_match l = None"
      by auto
    moreover have "find_start (Suc i) ls = Some (Suc i + k')"
      using Cons.prems Suc by (intro Cons.IH) auto
    ultimately show ?thesis using Suc by simp
  qed
qed

lemma block_loop_end:
  assumes "e \<le> e'" and "e' \<le> length lines"
      and mid: "\<forall>i. e \<le> i \<and> i < e' \<longrightarrow> INCLUDE_RE_match (lines ! i) \<noteq> None \<or> strip (lines ! i) = []"
      and stop: "e' < length lines \<longrightarrow> INCLUDE_RE_match (lines ! e') = None \<and> strip (lines ! e') \<noteq> []"
  shows "fst (block_loop lines e incs) = e'"
proof -
  obtain e2 incs2 where r: "block_loop lines e incs = (e2, incs2)"
    by (cases "block_loop lines e incs")
  from block_loop_result [OF r] assms(1,2)
  have le: "e \<le> e2" "e2 \<le> length lines"
    and mid2: "\<forall>i. e \<le> i \<and> i < e2 \<longrightarrow> INCLUDE_RE_match (lines ! i) \<noteq> None \<or> strip (lines ! i) = []"
    and stop2: "e2 < length lines \<longrightarrow> INCLUDE_RE_match (lines ! e2) = None \<and> strip (lines ! e2) \<noteq> []"
    by auto
  have "\<not> e2 < e'"
  proof
    assume lt: "e2 < e'"
    then have "e2 < length lines" using assms(2) by simp
    with stop2 mid le lt show False by blast
  qed
  moreover have "\<not> e' < e2"
  proof
    assume lt: "e' < e2"
    then have "e' < length lines" using le by simp
    with stop mid2 assms(1) lt show False by blast
  qed
  ultimately show ?thesis using r by simp
qed

lemma first_occurrences_distinct: "distinct xs \<Longrightarrow> first_occurrences xs = xs"
  by (induction xs) (auto simp: removeAll_id)

lemma terminated_idem: "terminated (terminated t) = terminated t"
  by (simp add: terminated_def endswith_def)

lemma rebuild_file_of_block:
  assumes blk: "find_include_block lines = Some (s, e, block)"
      and ne: "kept_texts block keep \<noteq> []"
  shows "rebuild_file lines s e block keep =
     take s lines @ map terminated (kept_texts block keep) @ [[LF]] @ drop e lines"
proof -
  from find_include_block_Some [OF blk]
  have "length lines \<le> e \<or> strip (lines ! e) \<noteq> []"
    by (cases "e < length lines") auto
  with ne show ?thesis
    by (simp add: rebuild_file_eq)
qed

lemma kept_texts_match:
  assumes blk: "find_include_block lines = Some (s, e, block)"
      and t: "t \<in> set (kept_texts block keep)"
  shows "INCLUDE_RE_match (terminated t) \<noteq> None"
proof -
  from find_include_block_Some [OF blk]
  have block: "block =
       map (\<lambda>i. \<lparr>idx = i, text = lines ! i, target = the (INCLUDE_RE_match (lines ! i))\<rparr>)
         (filter (\<lambda>i. INCLUDE_RE_match (lines ! i) \<noteq> None) [s..<e])"
    by simp
  from t have "t \<in> text ` set block"
    by (auto simp: kept_texts_def set_first_occurrences)
  then have "INCLUDE_RE_match t \<noteq> None"
    by (subst (asm) block) auto
  then show ?thesis
    by (rule INCLUDE_RE_match_terminated)
qed

lemma find_include_block_rebuilt:
  assumes blk: "find_include_block lines = Some (s, e, block)"
      and ne: "kept_texts block keep \<noteq> []"
  shows "\<exists>block1. find_include_block (rebuild_file lines s e block keep) =
            Some (s, s + length (kept_texts block keep) + 1, block1) \<and>
          map text block1 = map terminated (kept_texts block keep)"
proof -
  let ?K = "kept_texts block keep"
  let ?n = "length ?K"
  let ?B = "map terminated ?K"
  define L where "L = take s lines @ ?B @ [[LF]] @ drop e lines"
  from find_include_block_Some [OF blk]
  have s: "s < length lines" and e: "e \<le> length lines"
    and before: "\<forall>m<s. INCLUDE_RE_match (lines ! m) = None"
    and stop: "e < length lines \<longrightarrow> INCLUDE_RE_match (lines ! e) = None \<and> strip (lines ! e) \<noteq> []"
    by auto
  have rb: "rebuild_file lines s e block keep = L"
    unfolding L_def by (rule rebuild_file_of_block [OF blk ne])
  have lenA: "length (take s lines) = s"
    using s by simp
  have lenL: "length L = s + ?n + 1 + (length lines - e)"
    using s by (simp add: L_def)
  have nthA: "L ! i = lines ! i" if "i < s" for i
    using that s by (simp add: L_def nth_append)
  have nthB: "L ! (s + i) = terminated (?K ! i)" if "i < ?n" for i
    using that lenA by (simp add: L_def nth_append)
  have nthS: "L ! (s + ?n) = [LF]"
    using lenA by (simp add: L_def nth_append)
  have nthC: "L ! (s + ?n + 1) = lines ! e" if "e < length lines"
    using that lenA by (simp add: L_def nth_append)
  have matchB: "INCLUDE_RE_match (L ! (s + i)) \<noteq> None" if "i < ?n" for i
  proof -
    have "?K ! i \<in> set ?K" using that by simp
    from kept_texts_match [OF blk this] show ?thesis
      by (simp add: nthB [OF that])
  qed
  have n0: "0 < ?n"
    using ne by simp
  have start: "find_start 0 L = Some s"
  proof -
    have "find_start 0 L = Some (0 + s)"
    proof (rule find_start_first)
      show "s < length L" using lenL by simp
      show "INCLUDE_RE_match (L ! s) \<noteq> None"
        using matchB [of 0] n0 by simp
      show "\<forall>m<s. INCLUDE_RE_match (L ! m) = None"
        using before nthA by simp
    qed
    then show ?thesis by simp
  qed
  have mid: "\<forall>i. s \<le> i \<and> i < s + ?n + 1 \<longrightarrow>
      INCLUDE_RE_match (L ! i) \<noteq> None \<or> strip (L ! i) = []"
  proof (intro allI impI)
    fix i assume i: "s \<le> i \<and> i < s + ?n + 1"
    show "INCLUDE_RE_match (L ! i) \<noteq> None \<or> strip (L ! i) = []"
    proof (cases "i < s + ?n")
      case True
      with i have "i - s < ?n" "i = s + (i - s)" by auto
      with matchB [of "i - s"] show ?thesis by simp
    next
      case False
      with i have "i = s + ?n" by simp
      then show ?thesis using nthS blank_line(2) by simp
    qed
  qed
  have stopL: "s + ?n + 1 < length L \<longrightarrow>
      INCLUDE_RE_match (L ! (s + ?n + 1)) = None \<and> strip (L ! (s + ?n + 1)) \<noteq> []"
  proof
    assume "s + ?n + 1 < length L"
    then have "e < length lines" using lenL by simp
    then show "INCLUDE_RE_match (L ! (s + ?n + 1)) = None \<and> strip (L ! (s + ?n + 1)) \<noteq> []"
      using stop nthC by simp
  qed
  obtain e1 block1 where loop: "block_loop L s [] = (e1, block1)"
    by (cases "block_loop L s []")
  have "fst (block_loop L s []) = s + ?n + 1"
    by (rule block_loop_end [OF _ _ mid stopL]) (simp_all add: lenL)
  with loop have e1: "e1 = s + ?n + 1" by simp
  have found: "find_include_block L = Some (s, s + ?n + 1, block1)"
    using start loop e1 by (simp add: find_include_block_def)
  let ?M = "\<lambda>i. INCLUDE_RE_match (L ! i) \<noteq> None"
  from find_include_block_Some [OF found]
  have block1: "block1 =
       map (\<lambda>i. \<lparr>idx = i, text = L ! i, target = the (INCLUDE_RE_match (L ! i))\<rparr>)
         (filter ?M [s..<s + ?n + 1])"
    by simp
  have "filter ?M [s..<s + ?n] = [s..<s + ?n]"
  proof (rule filter_True)
    show "\<forall>x\<in>set [s..<s + ?n]. ?M x"
    proof
      fix x assume "x \<in> set [s..<s + ?n]"
      then have "x - s < ?n" "x = s + (x - s)" by auto
      with matchB [of "x - s"] show "?M x" by simp
    qed
  qed
  moreover have "\<not> ?M (s + ?n)"
    using nthS blank_line(1) by simp
  ultimately have idxs: "filter ?M [s..<s + ?n + 1] = [s..<s + ?n]"
    by simp
  have "map text block1 = map (\<lambda>i. L ! i) [s..<s + ?n]"
    unfolding block1 idxs by (simp add: comp_def)
  also have "\<dots> = ?B"
  proof (rule nth_equalityI)
    show "length (map (\<lambda>i. L ! i) [s..<s + ?n]) = length ?B" by simp
    fix i assume "i < length (map (\<lambda>i. L ! i) [s..<s + ?n])"
    then have i: "i < ?n" by simp
    then show "map (\<lambda>i. L ! i) [s..<s + ?n] ! i = ?B ! i"
      using nthB [OF i] by simp
  qed
  finally have texts: "map text block1 = ?B" .
  from found texts show ?thesis
    unfolding rb by blast
qed

lemma rebuild_file_twice:
  assumes blk: "find_include_block lines = Some (s, e, block)"
      and ne: "kept_texts block keep \<noteq> []"
      and dist: "distinct (map terminated (kept_texts block keep))"
      and blk1: "find_include_block (rebuild_file lines s e block keep) = Some (s1, e1, block1)"
      and all: "text ` set block1 \<subseteq> keep1"
  shows "rebuild_file (rebuild_file lines s e block keep) s1 e1 block1 keep1 =
           rebuild_file lines s e block keep"
proof -
  let ?K = "kept_texts block keep"
  let ?B = "map terminated ?K"
  define L where "L = rebuild_file lines s e block keep"
  have L: "L = take s lines @ ?B @ [[LF]] @ drop e lines"
    unfolding L_def by (rule rebuild_file_of_block [OF blk ne])
  from find_include_block_rebuilt [OF blk ne] blk1
  have s1: "s1 = s" and e1: "e1 = s + length ?K + 1" and texts: "map text block1 = ?B"
    by auto
  have "filter (\<lambda>t. t \<in> keep1) (map text block1) = map text block1"
    using all by (intro filter_True) auto
  then have K1: "kept_texts block1 keep1 = ?B"
    using dist by (simp add: kept_texts_def texts first_occurrences_distinct)
  have B: "map terminated ?B = ?B"
    by (simp add: terminated_idem)
  have ne1: "kept_texts block1 keep1 \<noteq> []"
    using K1 ne by simp
  from find_include_block_Some [OF blk] have s: "s < length lines"
    by simp
  have tk: "take s L = take s lines"
    using s by (simp add: L)
  have dr: "drop (s + length ?K + 1) L = drop e lines"
    using s by (simp add: L)
  have "rebuild_file L s1 e1 block1 keep1 =
      take s1 L @ map terminated (kept_texts block1 keep1) @ [[LF]] @ drop e1 L"
    by (rule rebuild_file_of_block [OF blk1 [folded L_def] ne1])
  also have "\<dots> = take s lines @ ?B @ [[LF]] @ drop e lines"
    by (simp only: s1 e1 K1 B tk dr)
  also have "\<dots> = L"
    by (simp only: L)
  finally show ?thesis
    unfolding L_def .
qed

lemma out_compiled_cases:
  "\<exists>cmds. out (compiled w c v) = out w @ cmds \<and> filter (\<lambda>m. \<not> is_command m) cmds = []"
  by (simp add: compiled_def)

lemma out_fold_compiled:
  "\<exists>cmds. out (fold (\<lambda>x w. compiled w (f x) v) xs w) = out w @ cmds \<and>
      filter (\<lambda>m. \<not> is_command m) cmds = []"
proof (induction xs arbitrary: w)
  case Nil
  then show ?case by simp
next
  case (Cons x xs)
  from Cons [of "compiled w (f x) v"] obtain cmds where
    1: "out (fold (\<lambda>x w. compiled w (f x) v) xs (compiled w (f x) v)) =
         out (compiled w (f x) v) @ cmds" and 2: "filter (\<lambda>m. \<not> is_command m) cmds = []"
    by blast
  from out_compiled_cases [of w "f x" v] obtain c0 where
    3: "out (compiled w (f x) v) = out w @ c0" and 4: "filter (\<lambda>m. \<not> is_command m) c0 = []"
    by blast
  have "out (fold (\<lambda>x w. compiled w (f x) v) (x # xs) w) = out w @ (c0 @ cmds)"
    using 1 3 by simp
  moreover have "filter (\<lambda>m. \<not> is_command m) (c0 @ cmds) = []"
    using 2 4 by simp
  ultimately show ?case by blast
qed

text \<open>
  C8, as the code has it. A first run rebuilt the lines of a file from its include block
  and a keep set, keeping at least one include, the kept lines being pairwise different
  once terminated. A second run in rewrite mode reads a file with exactly these lines;
  the compiler accepts it and rejects each candidate that lacks one of its include
  lines. Then the second run returns \<open>True\<close>, writes nothing, leaves no temporary file,
  and what it prints besides the echoed command lines is the no-op line in verbose mode
  and nothing otherwise; never the line of an edit.
\<close>

theorem second_run_no_op:
  assumes blk: "find_include_block lines = Some (start, end, include_block)"
      and ne: "kept_texts include_block keep_set \<noteq> []"
      and dist: "distinct (map terminated (kept_texts include_block keep_set))"
      and rd: "read_text w p = Inr content"
      and same: "splitlines content = rebuild_file lines start end include_block keep_set"
      and blk1: "find_include_block (splitlines content) = Some (start1, end1, block1)"
      and base: "cc (Some content) = Exited 0"
      and needed: "\<forall>inc\<in>set block1. \<exists>rc. rc \<noteq> 0 \<and>
                     cc (Some (concat (trimmed (splitlines content) (idx inc)))) = Exited rc"
      and fx: "fix a"
  shows "\<exists>w'. process_file w p a cc = (w', Inr True) \<and> fs w' = fs w \<and> tmp w' = tmp w \<and>
           take (length (out w)) (out w') = out w \<and>
           filter (\<lambda>m. \<not> is_command m) (drop (length (out w)) (out w')) =
             (if verbose a then [Noop p] else [])"
proof -
  let ?lines1 = "splitlines content"
  let ?v = "verbose a"
  let ?w1 = "fold (\<lambda>inc w. compiled w (concat (trimmed ?lines1 (idx inc))) ?v) block1
          (compiled w content ?v)"
  have acc: "accepts cc ?lines1"
    using base by (simp add: accepts_def concat_splitlines)
  have cand: "\<forall>inc\<in>set block1. cc (Some (concat (trimmed ?lines1 (idx inc)))) \<noteq> Raised"
    using needed by fastforce
  have rej: "\<not> accepts cc (trimmed ?lines1 (idx inc))" if "inc \<in> set block1" for inc
    using needed that by (fastforce simp: accepts_def)
  have nd: "{text inc |inc. inc \<in> set block1 \<and> \<not> accepts cc (trimmed ?lines1 (idx inc))} =
      text ` set block1"
    using rej by auto
  have removed: "filter (\<lambda>inc. text inc \<notin> text ` set block1) block1 = []"
    by (auto simp: filter_empty_conv)
  have kept: "filter (\<lambda>inc. text inc \<in> text ` set block1) block1 = block1"
    by (auto simp: filter_id_conv)
  have pf: "process_file w p a cc =
      fix_pass ?w1 p a cc ?lines1 start1 end1 block1 [] (text ` set block1)"
    using process_file_fix_eq [OF rd blk1 acc cand fx]
    by (simp only: nd removed kept set_map)
  have fixed: "rebuild_file ?lines1 start1 end1 block1 (text ` set block1) = ?lines1"
    using rebuild_file_twice [OF blk ne dist blk1 [unfolded same], of "text ` set block1"]
    by (simp add: same)
  have cl: "compile_lines ?w1 ?lines1 cc ?v = (compiled ?w1 content ?v, Inr True)"
    using compile_lines_returns [of cc ?lines1 0 ?w1 ?v] base by (simp add: concat_splitlines)
  define w2 where "w2 = compiled ?w1 content ?v"
  define w3 where "w3 = (if ?v then w2\<lparr>out := out w2 @ [Noop p]\<rparr> else w2)"
  have res: "process_file w p a cc = (w3, Inr True)"
    unfolding pf fix_pass_def w3_def w2_def by (simp add: fixed cl Let_def)
  obtain c0 where c0: "out (compiled w content ?v) = out w @ c0"
      "filter (\<lambda>m. \<not> is_command m) c0 = []"
    using out_compiled_cases by blast
  obtain c1 where c1: "out ?w1 = out (compiled w content ?v) @ c1"
      "filter (\<lambda>m. \<not> is_command m) c1 = []"
    using out_fold_compiled [of "\<lambda>inc. concat (trimmed ?lines1 (idx inc))" ?v block1
        "compiled w content ?v"] by blast
  obtain c2 where c2: "out w2 = out ?w1 @ c2" "filter (\<lambda>m. \<not> is_command m) c2 = []"
    unfolding w2_def using out_compiled_cases by blast
  have out2: "out w2 = out w @ (c0 @ c1 @ c2)"
    using c0(1) c1(1) c2(1) by simp
  have out3: "out w3 = out w @ (c0 @ c1 @ c2) @ (if ?v then [Noop p] else [])"
    unfolding w3_def using out2 by simp
  have "fs w3 = fs w" "tmp w3 = tmp w"
    unfolding w3_def w2_def by (simp_all add: fs_fold_compiled tmp_fold_compiled)
  moreover have "take (length (out w)) (out w3) = out w"
    unfolding out3 by simp
  moreover have "filter (\<lambda>m. \<not> is_command m) (drop (length (out w)) (out w3)) =
             (if ?v then [Noop p] else [])"
    unfolding out3 using c0(2) c1(2) c2(2) by simp
  ultimately show ?thesis
    using res by blast
qed

theorem second_run_no_op_witness:
  "fs (fst (process_file (world_with ''f.c'' (inc_a @ inc_b @ code_x)) ''f.c''
              \<lparr>fix = True, verbose = False\<rparr> cc_b_or_c)) ''f.c'' =
     Some (inc_b @ [LF] @ code_x) \<and>
   find_include_block [inc_a, inc_b, code_x] =
     Some (0, 2, [\<lparr>idx = 0, text = inc_a, target = ''a''\<rparr>, \<lparr>idx = 1, text = inc_b, target = ''b''\<rparr>]) \<and>
   splitlines (inc_b @ [LF] @ code_x) =
     rebuild_file [inc_a, inc_b, code_x] 0 2
       [\<lparr>idx = 0, text = inc_a, target = ''a''\<rparr>, \<lparr>idx = 1, text = inc_b, target = ''b''\<rparr>] {inc_b} \<and>
   cc_b_or_c (Some (inc_b @ [LF] @ code_x)) = Exited 0 \<and>
   cc_b_or_c (Some (concat (trimmed (splitlines (inc_b @ [LF] @ code_x)) 0))) = Exited 1 \<and>
   (\<exists>w'. process_file (world_with ''f.c'' (inc_b @ [LF] @ code_x)) ''f.c''
            \<lparr>fix = True, verbose = False\<rparr> cc_b_or_c = (w', Inr True) \<and>
      fs w' = fs (world_with ''f.c'' (inc_b @ [LF] @ code_x)) \<and> tmp w' = [] \<and>
      filter (\<lambda>m. \<not> is_command m) (out w') = []) \<and>
   out (fst (process_file (world_with ''f.c'' (inc_b @ [LF] @ code_x)) ''f.c''
               \<lparr>fix = True, verbose = False\<rparr> cc_b_or_c)) = []"
proof -
  let ?block = "[\<lparr>idx = 0, text = inc_a, target = ''a''\<rparr>, \<lparr>idx = 1, text = inc_b, target = ''b''\<rparr>]"
  let ?content = "inc_b @ [LF] @ code_x"
  let ?w = "world_with ''f.c'' ?content"
  have run1: "fs (fst (process_file (world_with ''f.c'' (inc_a @ inc_b @ code_x)) ''f.c''
              \<lparr>fix = True, verbose = False\<rparr> cc_b_or_c)) ''f.c'' = Some ?content"
    by code_simp
  have blk: "find_include_block [inc_a, inc_b, code_x] = Some (0, 2, ?block)"
    by code_simp
  have ne: "kept_texts ?block {inc_b} \<noteq> []"
    by code_simp
  have dist: "distinct (map terminated (kept_texts ?block {inc_b}))"
    by code_simp
  have rd: "read_text ?w ''f.c'' = Inr ?content"
    by code_simp
  have same: "splitlines ?content = rebuild_file [inc_a, inc_b, code_x] 0 2 ?block {inc_b}"
    by code_simp
  have blk1: "find_include_block (splitlines ?content) =
      Some (0, 2, [\<lparr>idx = 0, text = inc_b, target = ''b''\<rparr>])"
    by code_simp
  have base: "cc_b_or_c (Some ?content) = Exited 0"
    by code_simp
  have rej: "cc_b_or_c (Some (concat (trimmed (splitlines ?content) 0))) = Exited 1"
    by code_simp
  then have needed: "\<forall>inc\<in>set [\<lparr>idx = 0, text = inc_b, target = ''b''\<rparr>]. \<exists>rc. rc \<noteq> 0 \<and>
      cc_b_or_c (Some (concat (trimmed (splitlines ?content) (idx inc)))) = Exited rc"
    by simp
  have fx: "fix \<lparr>fix = True, verbose = False\<rparr>"
    by simp
  from second_run_no_op [OF blk ne dist rd same blk1 base needed fx]
  have "\<exists>w'. process_file ?w ''f.c'' \<lparr>fix = True, verbose = False\<rparr> cc_b_or_c = (w', Inr True) \<and>
      fs w' = fs ?w \<and> tmp w' = [] \<and> filter (\<lambda>m. \<not> is_command m) (out w') = []"
    by (simp add: world_with_def)
  moreover have "out (fst (process_file ?w ''f.c'' \<lparr>fix = True, verbose = False\<rparr> cc_b_or_c)) = []"
    by code_simp
  ultimately show ?thesis
    using run1 blk same base rej by blast
qed

text \<open>
  C8 as the specification words it fails in two ways. With a compiler for which the code
  needs the header \<open>b\<close> or the header \<open>c\<close>, the first run on the includes \<open>a\<close>, \<open>b\<close>, \<open>c\<close>
  finds none needed alone, restores \<open>a\<close> and then \<open>b\<close>, and writes a file with \<open>a\<close> and
  \<open>b\<close>; the second run removes \<open>a\<close> and writes again. With a compiler that accepts
  every text, the first run on \<open>a\<close>, a line of code and \<open>b\<close> empties the first block, and
  the second run finds the block of \<open>b\<close> and empties it too.
\<close>

theorem second_run_edits_again:
  "snd (process_file (world_with ''f.c'' (inc_a @ inc_b @ inc_c @ code_x)) ''f.c''
          \<lparr>fix = True, verbose = False\<rparr> cc_b_or_c) = Inr True \<and>
   fs (fst (process_file (world_with ''f.c'' (inc_a @ inc_b @ inc_c @ code_x)) ''f.c''
          \<lparr>fix = True, verbose = False\<rparr> cc_b_or_c)) ''f.c'' =
     Some (inc_a @ inc_b @ [LF] @ code_x) \<and>
   snd (process_file
          (fst (process_file (world_with ''f.c'' (inc_a @ inc_b @ inc_c @ code_x)) ''f.c''
                  \<lparr>fix = True, verbose = False\<rparr> cc_b_or_c))
          ''f.c'' \<lparr>fix = True, verbose = False\<rparr> cc_b_or_c) = Inr True \<and>
   fs (fst (process_file
          (fst (process_file (world_with ''f.c'' (inc_a @ inc_b @ inc_c @ code_x)) ''f.c''
                  \<lparr>fix = True, verbose = False\<rparr> cc_b_or_c))
          ''f.c'' \<lparr>fix = True, verbose = False\<rparr> cc_b_or_c)) ''f.c'' =
     Some (inc_b @ [LF] @ code_x) \<and>
   out (fst (process_file
          (fst (process_file (world_with ''f.c'' (inc_a @ inc_b @ inc_c @ code_x)) ''f.c''
                  \<lparr>fix = True, verbose = False\<rparr> cc_b_or_c))
          ''f.c'' \<lparr>fix = True, verbose = False\<rparr> cc_b_or_c)) =
     [Fix ''f.c'' 2 1, Fix ''f.c'' 1 1] \<and>
   fs (fst (process_file (world_with ''f.c'' (inc_a @ code_x @ inc_b)) ''f.c''
          \<lparr>fix = True, verbose = False\<rparr> (\<lambda>src. Exited 0))) ''f.c'' =
     Some (code_x @ inc_b) \<and>
   fs (fst (process_file
          (fst (process_file (world_with ''f.c'' (inc_a @ code_x @ inc_b)) ''f.c''
                  \<lparr>fix = True, verbose = False\<rparr> (\<lambda>src. Exited 0)))
          ''f.c'' \<lparr>fix = True, verbose = False\<rparr> (\<lambda>src. Exited 0))) ''f.c'' =
     Some code_x \<and>
   out (fst (process_file
          (fst (process_file (world_with ''f.c'' (inc_a @ code_x @ inc_b)) ''f.c''
                  \<lparr>fix = True, verbose = False\<rparr> (\<lambda>src. Exited 0)))
          ''f.c'' \<lparr>fix = True, verbose = False\<rparr> (\<lambda>src. Exited 0))) =
     [Fix ''f.c'' 0 1, Fix ''f.c'' 0 1]"
  by code_simp

end
